theory Spec2Isabelle
  imports Main "HOL-Library.Word"
begin

section \<open>Errors\<close>

text \<open>
  Every way in which the C++ code leaves a function other than by returning:
  the project's own \<open>ExecutionException\<close>, the \<open>std::out_of_range\<close> thrown by
  \<open>std::map::at\<close>, the dereference of a null pointer, the use of a local variable that
  was never written, and \<open>erase\<close> of the end iterator of a container.
\<close>

datatype error =
    ExecutionException string
  | OutOfRange
  | NullPointerDereference
  | UninitializedRead
  | EraseEnd

section \<open>The persistent trie (src/primer/trie.cpp)\<close>

subsection \<open>Values, nodes and the store\<close>

text \<open>
  \<open>Get\<close> and \<open>Put\<close> are templates, instantiated at the end of trie.cpp for
  \<open>uint32_t\<close>, \<open>uint64_t\<close>, \<open>std::string\<close>, \<open>Integer = std::unique_ptr<uint32_t>\<close> and
  \<open>MoveBlocked\<close>. A stored value carries its dynamic type, which is what
  \<open>std::dynamic_pointer_cast\<close> inspects in \<open>Get\<close>.
\<close>

datatype tvalue =
    UInt32 "32 word"
  | UInt64 "64 word"
  | String string
  | Integer "32 word"
  | MoveBlocked

datatype vtype = T_uint32 | T_uint64 | T_string | T_Integer | T_MoveBlocked

fun type_of :: "tvalue \<Rightarrow> vtype" where
  "type_of (UInt32 _) = T_uint32"
| "type_of (UInt64 _) = T_uint64"
| "type_of (String _) = T_string"
| "type_of (Integer _) = T_Integer"
| "type_of MoveBlocked = T_MoveBlocked"

text \<open>
  Modelled from the spec: the classes \<open>TrieNode\<close> and \<open>TrieNodeWithValue<T>\<close> (declared
  in trie.h) with their constructors and \<open>Clone\<close>. The spec: a \<open>TrieNode\<close> holds a mapping
  from single-byte child labels to child nodes and the flag \<open>is_value_node\<close>; a
  \<open>TrieNodeWithValue<T>\<close> carries in addition a handle to a value and has the flag set; a
  clone is shallow. trie.cpp reads and writes the members \<open>children_\<close>, \<open>is_value_node_\<close>
  and \<open>value_\<close>; they are written here without the trailing underscore, and \<open>value_\<close> is
  \<open>val\<close>, which is \<open>None\<close> in a plain \<open>TrieNode\<close>.
  Nodes live in a store and are referred to by address, as the
  \<open>std::shared_ptr<const TrieNode>\<close> of the source do; a null pointer is \<open>None\<close>.
  An address is an index into the store, and allocation appends, so that a new node never
  has the address of an existing one.
\<close>

record TrieNode =
  children :: "char \<rightharpoonup> nat"
  val :: "tvalue option"

definition is_value_node :: "TrieNode \<Rightarrow> bool" where
  "is_value_node n = (val n \<noteq> None)"

type_synonym heap = "TrieNode list"

text \<open>A \<open>Trie\<close> is its \<open>root_\<close> pointer; the empty trie has a null root.\<close>

type_synonym Trie = "nat option"

definition alloc :: "heap \<Rightarrow> TrieNode \<Rightarrow> heap \<times> nat" where
  "alloc h n = (h @ [n], length h)"

text \<open>\<open>p->children_[ch] = c\<close> and \<open>p->children_.erase(ch)\<close> on the node at address \<open>p\<close>.\<close>

definition set_child :: "heap \<Rightarrow> nat \<Rightarrow> char \<Rightarrow> nat \<Rightarrow> heap" where
  "set_child h p ch c = h[p := (h ! p)\<lparr>children := (children (h ! p))(ch \<mapsto> c)\<rparr>]"

definition erase_child :: "heap \<Rightarrow> nat \<Rightarrow> char \<Rightarrow> heap" where
  "erase_child h p ch = h[p := (h ! p)\<lparr>children := (children (h ! p))(ch := None)\<rparr>]"

text \<open>\<open>std::make_shared<TrieNode>()\<close> and the two constructors of \<open>TrieNodeWithValue\<close>.\<close>

definition empty_node :: TrieNode where
  "empty_node = \<lparr>children = Map.empty, val = None\<rparr>"

definition value_node :: "(char \<rightharpoonup> nat) \<Rightarrow> tvalue \<Rightarrow> TrieNode" where
  "value_node cs v = \<lparr>children = cs, val = Some v\<rparr>"

subsection \<open>Get\<close>

text \<open>
  The loop \<open>for (char ch : key)\<close> of \<open>Get\<close> (and the first loop of \<open>Remove\<close>): follow the
  labels of the key from \<open>cur\<close>; \<open>None\<close> when a label is absent.
\<close>

fun walk :: "heap \<Rightarrow> nat \<Rightarrow> string \<Rightarrow> nat option" where
  "walk h cur [] = Some cur"
| "walk h cur (ch # key) =
     (case children (h ! cur) ch of
        Some c \<Rightarrow> walk h c key
      | None \<Rightarrow> None)"

text \<open>
  \<open>std::dynamic_pointer_cast<const TrieNodeWithValue<T>>(cur)\<close> followed by
  \<open>node->value_.get()\<close>: the value, when the node holds one of type \<open>T\<close>.
\<close>

definition cast_value :: "heap \<Rightarrow> nat \<Rightarrow> vtype \<Rightarrow> tvalue option" where
  "cast_value h cur T =
     (case val (h ! cur) of
        Some v \<Rightarrow> if type_of v = T then Some v else None
      | None \<Rightarrow> None)"

text \<open>
  \<open>Get<T>(key)\<close>. \<open>Inr None\<close> is the returned \<open>nullptr\<close>. For the empty key the source
  calls \<open>cur->children_.at('\\0')\<close>, and \<open>std::map::at\<close> throws \<open>std::out_of_range\<close>
  when the label is absent.
\<close>

definition Get :: "heap \<Rightarrow> Trie \<Rightarrow> vtype \<Rightarrow> string \<Rightarrow> error + tvalue option" where
  "Get h t T key =
     (case t of
        None \<Rightarrow> Inr None
      | Some root \<Rightarrow>
          (case walk h root key of
             None \<Rightarrow> Inr None
           | Some cur \<Rightarrow>
               if key = [] then
                 (case children (h ! cur) (CHR 0x00) of
                    None \<Rightarrow> Inl OutOfRange
                  | Some c \<Rightarrow> Inr (cast_value h c T))
               else Inr (cast_value h cur T)))"

subsection \<open>Put\<close>

text \<open>
  The loop of \<open>Put\<close> over the characters of a non-empty key. \<open>cur\<close> walks the old trie
  and \<open>new_cur\<close> is the node of the new trie built last. Where the old trie has no child
  for a character, the source leaves \<open>cur\<close> as it is and goes on.
\<close>

fun Put_loop :: "heap \<Rightarrow> nat option \<Rightarrow> nat \<Rightarrow> string \<Rightarrow> tvalue \<Rightarrow> heap" where
  "Put_loop h cur new_cur [] v = h"
| "Put_loop h cur new_cur [ch] v =
     (case (case cur of None \<Rightarrow> None | Some c \<Rightarrow> children (h ! c) ch) of
        Some c' \<Rightarrow>
          (let (h1, next_cur) = alloc h (value_node (children (h ! c')) v)
           in set_child h1 new_cur ch next_cur)
      | None \<Rightarrow>
          (let (h1, next_cur) = alloc h (value_node Map.empty v)
           in set_child h1 new_cur ch next_cur))"
| "Put_loop h cur new_cur (ch # key) v =
     (case (case cur of None \<Rightarrow> None | Some c \<Rightarrow> children (h ! c) ch) of
        Some c' \<Rightarrow>
          (let (h1, next_cur) = alloc h (h ! c')
           in Put_loop (set_child h1 new_cur ch next_cur) (Some c') next_cur key v)
      | None \<Rightarrow>
          (let (h1, next_cur) = alloc h empty_node
           in Put_loop (set_child h1 new_cur ch next_cur) cur next_cur key v))"

text \<open>\<open>Put<T>(key, value)\<close>: the store with the new nodes, and the new trie.\<close>

definition Put :: "heap \<Rightarrow> Trie \<Rightarrow> string \<Rightarrow> tvalue \<Rightarrow> heap \<times> Trie" where
  "Put h t key v =
     (let (h0, new_root) =
            (case t of Some root \<Rightarrow> alloc h (h ! root) | None \<Rightarrow> alloc h empty_node)
      in if key = [] then
           (let (h1, next_cur) = alloc h0 (value_node Map.empty v)
            in (set_child h1 new_root (CHR 0x00) next_cur, Some new_root))
         else (Put_loop h0 t new_root key v, Some new_root))"

subsection \<open>Remove\<close>

text \<open>
  The second loop of \<open>Remove\<close>: clone the nodes along the key and record them in \<open>path\<close>.
  \<open>cur->children_.at(ch)\<close> throws when the label is absent.
\<close>

fun Remove_clone ::
  "heap \<Rightarrow> nat \<Rightarrow> nat \<Rightarrow> string \<Rightarrow> (char \<times> nat) list \<Rightarrow> error + heap \<times> (char \<times> nat) list"
where
  "Remove_clone h cur new_cur [] path = Inr (h, path)"
| "Remove_clone h cur new_cur (ch # key) path =
     (case children (h ! cur) ch of
        None \<Rightarrow> Inl OutOfRange
      | Some c \<Rightarrow>
          (let (h1, next_cur) = alloc h (h ! c)
           in Remove_clone (set_child h1 new_cur ch next_cur) c next_cur key
                (path @ [(ch, next_cur)])))"

text \<open>
  The third loop of \<open>Remove\<close>, over the reversed path: \<open>i\<close> counts the iterations, the
  list holds \<open>path[i]\<close>, \<open>path[i + 1]\<close>, ... and the loop stops before the last entry.
\<close>

fun Remove_prune :: "heap \<Rightarrow> nat \<Rightarrow> (char \<times> nat) list \<Rightarrow> heap" where
  "Remove_prune h i ((ch, node) # (pch, parent_node) # rest) =
     (let h' =
        (if i = 0 \<and> is_value_node (h ! node) then
           (if dom (children (h ! node)) = {} then erase_child h parent_node ch
            else
              (let (h1, new_node) = alloc h \<lparr>children = children (h ! node), val = None\<rparr>
               in set_child h1 parent_node ch new_node))
         else if dom (children (h ! node)) = {} \<and> \<not> is_value_node (h ! node) then
           erase_child h parent_node ch
         else h)
      in Remove_prune h' (i + 1) ((pch, parent_node) # rest))"
| "Remove_prune h i path = h"

text \<open>
  \<open>Remove(key)\<close>. With a null root, \<open>cur\<close> is null and the source dereferences it: in
  \<open>cur->children_\<close> for a non-empty key, in \<open>cur->is_value_node_\<close> for the empty one.
\<close>

definition Remove :: "heap \<Rightarrow> Trie \<Rightarrow> string \<Rightarrow> error + heap \<times> Trie" where
  "Remove h t key =
     (let (h0, new_root) =
            (case t of Some root \<Rightarrow> alloc h (h ! root) | None \<Rightarrow> alloc h empty_node);
          h1 = (if key = [] then erase_child h0 new_root (CHR 0x00) else h0)
      in case t of
           None \<Rightarrow> Inl NullPointerDereference
         | Some root \<Rightarrow>
             (case walk h1 root key of
                None \<Rightarrow> Inr (h1, Some new_root)
              | Some cur \<Rightarrow>
                  if \<not> is_value_node (h1 ! cur) then Inr (h1, Some new_root)
                  else
                    (case Remove_clone h1 root new_root key [(CHR 0x00, new_root)] of
                       Inl e \<Rightarrow> Inl e
                     | Inr (h2, path) \<Rightarrow>
                         (let h3 = Remove_prune h2 0 (rev path)
                          in if dom (children (h3 ! new_root)) = {} then Inr (h3, None)
                             else Inr (h3, Some new_root)))))"

subsection \<open>Well-formed stores\<close>

text \<open>
  A \<open>std::shared_ptr\<close> that is not null points to a live node. In the store this reads:
  every child address of a node of the store, and the root of the trie, is an address of
  the store.
\<close>

definition closed :: "heap \<Rightarrow> bool" where
  "closed h = (\<forall>a<length h. \<forall>c \<in> ran (children (h ! a)). c < length h)"

definition wf_trie :: "heap \<Rightarrow> Trie \<Rightarrow> bool" where
  "wf_trie h t = (closed h \<and> (case t of None \<Rightarrow> True | Some root \<Rightarrow> root < length h))"

text \<open>The addresses recorded in the \<open>path\<close> vector of \<open>Remove\<close> are addresses of the store.\<close>

definition path_in :: "heap \<Rightarrow> (char \<times> nat) list \<Rightarrow> bool" where
  "path_in h path = (\<forall>(c, a) \<in> set path. a < length h)"

section \<open>The LRU-K replacer (src/buffer/lru_k_replacer.cpp)\<close>

subsection \<open>Nodes and the replacer's state\<close>

text \<open>
  \<open>frame_id_t\<close> is a signed 32-bit integer. The replacer compares it with a \<open>size_t\<close>
  after \<open>static_cast<size_t>\<close>, which maps a negative value to \<open>2^64\<close> plus that value.
\<close>

type_synonym frame_id_t = int

definition size_t_of :: "frame_id_t \<Rightarrow> nat" where
  "size_t_of frame_id = (if frame_id < 0 then nat (2 ^ 64 + frame_id) else nat frame_id)"

text \<open>
  The address of an \<open>LRUKNode\<close>. The three sentinels are the objects that
  \<open>history_end_ptr_\<close>, \<open>middle_separator_ptr_\<close> and \<open>buffer_start_ptr_\<close> point to. The node
  kept in \<open>node_store_\<close> under the key \<open>f\<close> is at the address \<open>Node f\<close>: the replacer holds at
  most one node for a frame at a time, and it unlinks a node before it deletes it.
\<close>

datatype node_ptr = HistoryEnd | MiddleSeparator | BufferStart | Node frame_id_t

text \<open>
  Modelled from the spec: the class \<open>LRUKNode\<close> (declared in lru_k_replacer.h) with its
  constructor and its methods \<open>RecordAccess\<close>, \<open>GetSize\<close> and \<open>CleanHistory\<close>. The spec:
  a node holds its frame id, the bounded history of the K most recent access timestamps,
  oldest first, the flag \<open>is_evictable\<close> and the two list links; a new node has an empty
  history, is not evictable and is on no list; an access appends the timestamp and, if the
  history exceeds K, drops the oldest. \<open>RecordAccess\<close> returns a \<open>bool\<close> that the replacer
  reads as "the node belongs to the cache list": it is taken to tell that the oldest
  timestamp was dropped.
\<close>

record LRUKNode =
  history :: "nat list"
  node_k :: nat
  node_frame_id :: frame_id_t
  is_evictable :: bool
  frontptr :: "node_ptr option"
  backptr :: "node_ptr option"

definition new_LRUKNode :: "frame_id_t \<Rightarrow> nat \<Rightarrow> LRUKNode" where
  "new_LRUKNode frame_id kk =
     \<lparr>history = [], node_k = kk, node_frame_id = frame_id, is_evictable = False,
      frontptr = None, backptr = None\<rparr>"

definition node_RecordAccess :: "nat \<Rightarrow> LRUKNode \<Rightarrow> bool \<times> LRUKNode" where
  "node_RecordAccess timestamp n =
     (let h = history n @ [timestamp]
      in if length h > node_k n then (True, n\<lparr>history := tl h\<rparr>)
         else (False, n\<lparr>history := h\<rparr>))"

definition GetSize :: "LRUKNode \<Rightarrow> nat" where
  "GetSize n = length (history n)"

definition CleanHistory :: "LRUKNode \<Rightarrow> LRUKNode" where
  "CleanHistory n = n\<lparr>history := []\<rparr>"

text \<open>
  The replacer. \<open>nodes\<close> is the memory that holds the nodes, by address; \<open>node_store\<close> is
  \<open>node_store_\<close>. \<open>current_timestamp_\<close> is a \<open>size_t\<close> that only grows, here a natural
  number (its wrap-around after \<open>2^64\<close> accesses is not modelled); \<open>curr_size_\<close> is a
  \<open>size_t\<close> that is incremented and decremented, here a 64-bit word. \<open>is_debug_\<close> only
  switches printing on and is left out.
\<close>

record LRUKReplacer =
  nodes :: "node_ptr \<Rightarrow> LRUKNode"
  node_store :: "frame_id_t \<rightharpoonup> node_ptr"
  current_timestamp :: nat
  curr_size :: "64 word"
  replacer_size :: nat
  replacer_k :: nat

definition set_frontptr :: "node_ptr \<Rightarrow> node_ptr option \<Rightarrow> LRUKReplacer \<Rightarrow> LRUKReplacer" where
  "set_frontptr p v r = r\<lparr>nodes := (nodes r)(p := (nodes r p)\<lparr>frontptr := v\<rparr>)\<rparr>"

definition set_backptr :: "node_ptr \<Rightarrow> node_ptr option \<Rightarrow> LRUKReplacer \<Rightarrow> LRUKReplacer" where
  "set_backptr p v r = r\<lparr>nodes := (nodes r)(p := (nodes r p)\<lparr>backptr := v\<rparr>)\<rparr>"

text \<open>
  The constructor: the three sentinels, linked
  \<open>history_end \<leftrightarrow> middle_separator \<leftrightarrow> buffer_start\<close>, and a node in \<open>node_store_\<close> for each
  frame below \<open>num_frames\<close>, on no list. The memory at the other addresses is not allocated;
  what it holds is of no account.
\<close>

definition LRUKReplacer_new :: "nat \<Rightarrow> nat \<Rightarrow> LRUKReplacer" where
  "LRUKReplacer_new num_frames kk =
     \<lparr>nodes = (\<lambda>p. case p of
          HistoryEnd \<Rightarrow> (new_LRUKNode (- 1) 0)\<lparr>frontptr := Some MiddleSeparator, backptr := None\<rparr>
        | MiddleSeparator \<Rightarrow>
            (new_LRUKNode (- 2) 0)\<lparr>frontptr := Some BufferStart, backptr := Some HistoryEnd\<rparr>
        | BufferStart \<Rightarrow>
            (new_LRUKNode (- 3) 0)\<lparr>frontptr := None, backptr := Some MiddleSeparator\<rparr>
        | Node f \<Rightarrow> new_LRUKNode f kk),
      node_store = fold (\<lambda>i ns. ns(int i \<mapsto> Node (int i))) [0..<num_frames] Map.empty,
      current_timestamp = 0,
      curr_size = 0,
      replacer_size = num_frames,
      replacer_k = kk\<rparr>"

subsection \<open>The list primitives\<close>

definition DisLink :: "node_ptr \<Rightarrow> LRUKReplacer \<Rightarrow> LRUKReplacer" where
  "DisLink node_ptr r =
     (let node_back = backptr (nodes r node_ptr);
          node_front = frontptr (nodes r node_ptr);
          r1 = (case node_back of None \<Rightarrow> r | Some b \<Rightarrow> set_frontptr b node_front r);
          r2 = (case node_front of None \<Rightarrow> r1 | Some f \<Rightarrow> set_backptr f node_back r1)
      in set_backptr node_ptr None (set_frontptr node_ptr None r2))"

definition MoveToEnd :: "node_ptr \<Rightarrow> node_ptr \<Rightarrow> LRUKReplacer \<Rightarrow> LRUKReplacer" where
  "MoveToEnd node_ptr end_node_ptr r =
     (let r0 = DisLink node_ptr r;
          end_node_front_ptr = frontptr (nodes r0 end_node_ptr);
          r1 = set_frontptr end_node_ptr (Some node_ptr) r0;
          r2 = (case end_node_front_ptr of None \<Rightarrow> r1
                | Some f \<Rightarrow> set_backptr f (Some node_ptr) r1)
      in set_backptr node_ptr (Some end_node_ptr) (set_frontptr node_ptr end_node_front_ptr r2))"

definition IsBufferEmpty :: "LRUKReplacer \<Rightarrow> bool" where
  "IsBufferEmpty r = (frontptr (nodes r MiddleSeparator) = Some BufferStart)"

definition IsHistoryEmpty :: "LRUKReplacer \<Rightarrow> bool" where
  "IsHistoryEmpty r = (frontptr (nodes r HistoryEnd) = Some MiddleSeparator)"

subsection \<open>Evict\<close>

text \<open>
  The two \<open>for\<close> loops of \<open>Evict\<close>: from \<open>node_ptr\<close>, follow \<open>backptr_\<close> until the sentinel
  \<open>stop\<close>, and leave with the first evictable node. The loop dereferences \<open>node_ptr\<close>, so a
  null pointer ends it with a fault; on a list that never reaches \<open>stop\<close> it does not end,
  which is the value \<open>None\<close>.
\<close>

partial_function (option) Evict_scan ::
  "LRUKReplacer \<Rightarrow> node_ptr option \<Rightarrow> node_ptr \<Rightarrow> (error + node_ptr option) option"
where
  "Evict_scan r node_ptr stop =
     (case node_ptr of
        None \<Rightarrow> Some (Inl NullPointerDereference)
      | Some p \<Rightarrow>
          if p = stop then Some (Inr None)
          else if is_evictable (nodes r p) then Some (Inr (Some p))
          else Evict_scan r (backptr (nodes r p)) stop)"

text \<open>The body of the loops for the node found: the frame id written to \<open>*frame_id\<close>.\<close>

definition Evict_take :: "LRUKReplacer \<Rightarrow> node_ptr \<Rightarrow> frame_id_t option \<times> LRUKReplacer" where
  "Evict_take r node_ptr =
     (let r1 = DisLink node_ptr r;
          frame_id = node_frame_id (nodes r1 node_ptr);
          r2 = r1\<lparr>nodes := (nodes r1)(node_ptr :=
                      CleanHistory ((nodes r1 node_ptr)\<lparr>is_evictable := False\<rparr>))\<rparr>
      in (Some frame_id, r2\<lparr>curr_size := curr_size r2 - 1\<rparr>))"

text \<open>
  \<open>Evict(&frame_id)\<close>: \<open>Some f\<close> stands for the result \<open>true\<close> with \<open>f\<close> written to
  \<open>*frame_id\<close>, \<open>None\<close> for the result \<open>false\<close>, which leaves \<open>*frame_id\<close> as it was.
\<close>

definition Evict :: "LRUKReplacer \<Rightarrow> (error + frame_id_t option \<times> LRUKReplacer) option" where
  "Evict r =
     (if curr_size r = 0 then Some (Inr (None, r))
      else
        (case (if \<not> IsHistoryEmpty r
               then Evict_scan r (backptr (nodes r MiddleSeparator)) HistoryEnd
               else Some (Inr None)) of
           None \<Rightarrow> None
         | Some (Inl e) \<Rightarrow> Some (Inl e)
         | Some (Inr (Some p)) \<Rightarrow> Some (Inr (Evict_take r p))
         | Some (Inr None) \<Rightarrow>
             (case (if \<not> IsBufferEmpty r
                    then Evict_scan r (backptr (nodes r BufferStart)) MiddleSeparator
                    else Some (Inr None)) of
                None \<Rightarrow> None
              | Some (Inl e) \<Rightarrow> Some (Inl e)
              | Some (Inr (Some p)) \<Rightarrow> Some (Inr (Evict_take r p))
              | Some (Inr None) \<Rightarrow> Some (Inr (None, r)))))"

subsection \<open>RecordAccess, SetEvictable, Remove, Size\<close>

definition RecordAccess :: "LRUKReplacer \<Rightarrow> frame_id_t \<Rightarrow> error + LRUKReplacer" where
  "RecordAccess r frame_id =
     (let r0 = r\<lparr>current_timestamp := current_timestamp r + 1\<rparr>
      in if size_t_of frame_id \<ge> replacer_size r0 then
           Inl (ExecutionException
                  ''LRUKReplacer::RecordAccess: The frame_id is larger than the replacer size!'')
         else
           (case node_store r0 frame_id of
              None \<Rightarrow>
                (let new_node = Node frame_id;
                     r1 = r0\<lparr>nodes := (nodes r0)(new_node := new_LRUKNode frame_id (replacer_k r0)),
                             node_store := (node_store r0)(frame_id \<mapsto> new_node)\<rparr>;
                     r2 = r1\<lparr>nodes := (nodes r1)(new_node :=
                                 snd (node_RecordAccess (current_timestamp r1) (nodes r1 new_node)))\<rparr>
                 in Inr (MoveToEnd new_node HistoryEnd r2))
            | Some node_ptr \<Rightarrow>
                (let (dropped, n) = node_RecordAccess (current_timestamp r0) (nodes r0 node_ptr);
                     r1 = r0\<lparr>nodes := (nodes r0)(node_ptr := n)\<rparr>
                 in if dropped then Inr (MoveToEnd node_ptr MiddleSeparator r1)
                    else if GetSize (nodes r1 node_ptr) < replacer_k r1
                    then Inr (MoveToEnd node_ptr HistoryEnd r1)
                    else Inr (MoveToEnd node_ptr MiddleSeparator r1))))"

definition SetEvictable :: "LRUKReplacer \<Rightarrow> frame_id_t \<Rightarrow> bool \<Rightarrow> LRUKReplacer" where
  "SetEvictable r frame_id set_evictable =
     (case node_store r frame_id of
        None \<Rightarrow> r
      | Some node_ptr \<Rightarrow>
          if is_evictable (nodes r node_ptr) \<noteq> set_evictable then
            r\<lparr>nodes := (nodes r)(node_ptr := (nodes r node_ptr)\<lparr>is_evictable := set_evictable\<rparr>),
              curr_size := (if set_evictable then curr_size r + 1 else curr_size r - 1)\<rparr>
          else r)"

text \<open>
  \<open>LRUKReplacer::Remove\<close>, here \<open>Remove_frame\<close> (\<open>Remove\<close> is the trie's). \<open>delete node_ptr\<close>
  frees the node; the memory keeps what it held.
\<close>

definition Remove_frame :: "LRUKReplacer \<Rightarrow> frame_id_t \<Rightarrow> error + LRUKReplacer" where
  "Remove_frame r frame_id =
     (case node_store r frame_id of
        None \<Rightarrow> Inr r
      | Some node_ptr \<Rightarrow>
          if \<not> is_evictable (nodes r node_ptr) then
            Inl (ExecutionException ''LRUKReplacer::Remove: The frame_id is not evictable!'')
          else
            (let r1 = DisLink node_ptr r
             in Inr (r1\<lparr>node_store := (node_store r1)(frame_id := None),
                        curr_size := curr_size r1 - 1\<rparr>)))"

definition Size :: "LRUKReplacer \<Rightarrow> 64 word" where
  "Size r = curr_size r"

subsection \<open>The two lists, read off the links\<close>

text \<open>
  \<open>link_path nxt x as y\<close>: following the link \<open>nxt\<close> from the pointer \<open>x\<close> visits the nodes \<open>as\<close>
  in turn and arrives at the pointer \<open>y\<close>.
\<close>

primrec link_path ::
  "(node_ptr \<Rightarrow> node_ptr option) \<Rightarrow> node_ptr option \<Rightarrow> node_ptr list \<Rightarrow> node_ptr option \<Rightarrow> bool"
where
  "link_path nxt x [] y = (x = y)"
| "link_path nxt x (a # as) y = (x = Some a \<and> link_path nxt (nxt a) as y)"

text \<open>
  The whole chain from \<open>history_end\<close> to \<open>buffer_start\<close> when the history list holds the
  frames \<open>hs\<close> and the cache list the frames \<open>cs\<close>, each written from its recent end: the
  node that \<open>MoveToEnd\<close> placed last comes first.
\<close>

definition chain :: "frame_id_t list \<Rightarrow> frame_id_t list \<Rightarrow> node_ptr list" where
  "chain hs cs = HistoryEnd # map Node hs @ MiddleSeparator # map Node cs @ [BufferStart]"

text \<open>
  \<open>lists_of r hs cs\<close>: in the state \<open>r\<close> the links form that chain, in both directions, no
  frame is on it twice, and each node on it is the one \<open>node_store_\<close> holds for its frame.
\<close>

definition lists_of :: "LRUKReplacer \<Rightarrow> frame_id_t list \<Rightarrow> frame_id_t list \<Rightarrow> bool" where
  "lists_of r hs cs =
     (distinct (hs @ cs) \<and>
      link_path (\<lambda>p. frontptr (nodes r p)) (Some HistoryEnd) (chain hs cs) None \<and>
      link_path (\<lambda>p. backptr (nodes r p)) (Some BufferStart) (rev (chain hs cs)) None \<and>
      list_all (\<lambda>f. node_store r f = Some (Node f) \<and> node_frame_id (nodes r (Node f)) = f)
        (hs @ cs))"

text \<open>
  The frame that a search from the old end of the history list, then from the old end of
  the cache list, meets first among the evictable ones.
\<close>

definition evictable_frame :: "LRUKReplacer \<Rightarrow> frame_id_t \<Rightarrow> bool" where
  "evictable_frame r f = is_evictable (nodes r (Node f))"

definition victim :: "LRUKReplacer \<Rightarrow> frame_id_t list \<Rightarrow> frame_id_t list \<Rightarrow> frame_id_t option" where
  "victim r hs cs =
     (case find (evictable_frame r) (rev hs) of
        Some f \<Rightarrow> Some f
      | None \<Rightarrow> find (evictable_frame r) (rev cs))"

subsection \<open>Example states\<close>

text \<open>A run of \<open>RecordAccess\<close> calls, stopping at the first exception.\<close>

fun RecordAccesses :: "LRUKReplacer \<Rightarrow> frame_id_t list \<Rightarrow> error + LRUKReplacer" where
  "RecordAccesses r [] = Inr r"
| "RecordAccesses r (f # fs) =
     (case RecordAccess r f of Inl e \<Rightarrow> Inl e | Inr r' \<Rightarrow> RecordAccesses r' fs)"

text \<open>
  Three frames, \<open>K = 3\<close>, the accesses 1, 2, 1, then frames 1 and 2 made evictable: both
  are on the history list; frame 1 has the timestamps 1 and 3, frame 2 the timestamp 2.
\<close>

definition history_example :: LRUKReplacer where
  "history_example =
     (case RecordAccesses (LRUKReplacer_new 3 3) [1, 2, 1] of
        Inr r \<Rightarrow> SetEvictable (SetEvictable r 1 True) 2 True
      | Inl e \<Rightarrow> LRUKReplacer_new 3 3)"

text \<open>
  Three frames, \<open>K = 2\<close>, the accesses 1, 1, 2, 2, 1, then frames 1 and 2 made evictable:
  both are on the cache list; frame 1 keeps the timestamps 2 and 5, frame 2 keeps 3 and 4.
\<close>

definition cache_example :: LRUKReplacer where
  "cache_example =
     (case RecordAccesses (LRUKReplacer_new 3 2) [1, 1, 2, 2, 1] of
        Inr r \<Rightarrow> SetEvictable (SetEvictable r 1 True) 2 True
      | Inl e \<Rightarrow> LRUKReplacer_new 3 2)"

text \<open>Two frames, \<open>K = 2\<close>, one access to frame 0, which is then made evictable.\<close>

definition tracked_example :: LRUKReplacer where
  "tracked_example =
     (case RecordAccesses (LRUKReplacer_new 2 2) [0] of
        Inr r \<Rightarrow> SetEvictable r 0 True
      | Inl e \<Rightarrow> LRUKReplacer_new 2 2)"

subsection \<open>The invariant of the replacer\<close>

text \<open>
  \<open>replacer_inv r hs cs\<close>: the links form the two lists \<open>hs\<close> and \<open>cs\<close>; \<open>node_store_\<close> holds
  for a frame \<open>f\<close> the node at \<open>Node f\<close>, whose frame id is \<open>f\<close>; and a node of \<open>node_store_\<close>
  that is on neither list has two null links.
\<close>

definition replacer_inv :: "LRUKReplacer \<Rightarrow> frame_id_t list \<Rightarrow> frame_id_t list \<Rightarrow> bool" where
  "replacer_inv r hs cs =
     (lists_of r hs cs \<and>
      (\<forall>f p. node_store r f = Some p \<longrightarrow>
         p = Node f \<and> node_frame_id (nodes r p) = f \<and>
         (f \<notin> set (hs @ cs) \<longrightarrow> frontptr (nodes r p) = None \<and> backptr (nodes r p) = None)))"

text \<open>
  The list that \<open>RecordAccess\<close> moves a frame to: the history list for a frame it creates
  the node of; otherwise the history list when the node's \<open>RecordAccess\<close> returns \<open>false\<close>
  and the history is shorter than \<open>k_\<close>, and the cache list in the other cases.
\<close>

definition goes_to_history :: "LRUKReplacer \<Rightarrow> frame_id_t \<Rightarrow> bool" where
  "goes_to_history r f =
     (case node_store r f of
        None \<Rightarrow> True
      | Some p \<Rightarrow>
          (let (dropped, n) = node_RecordAccess (current_timestamp r + 1) (nodes r p)
           in \<not> dropped \<and> GetSize n < replacer_k r))"

section \<open>The buffer pool manager (src/buffer/buffer_pool_manager.cpp)\<close>

subsection \<open>Pages and the pool's state\<close>

text \<open>
  \<open>page_id_t\<close> is a signed 32-bit integer; the ids that \<open>AllocatePage\<close> hands out count up
  from 0, and the wrap-around after \<open>2^31\<close> allocations is not modelled.
\<close>

type_synonym page_id_t = int

text \<open>The content of a page: the byte at each offset.\<close>

type_synonym page_data = "nat \<Rightarrow> 8 word"

text \<open>
  Modelled from the spec: the class \<open>Page\<close> (declared in page.h) with \<open>ResetMemory\<close>. The
  spec: a page is a fixed-size byte buffer plus the metadata \<open>page_id\<close>, \<open>pin_count\<close> and
  \<open>is_dirty\<close>; "reset memory" zeroes the buffer. A page of a new pool has no page id
  (\<open>INVALID_PAGE_ID\<close>, which is -1), pin count 0 and is clean.
\<close>

record Page =
  page_id :: page_id_t
  pin_count :: int
  is_dirty :: bool
  data :: page_data

definition new_Page :: Page where
  "new_Page = \<lparr>page_id = - 1, pin_count = 0, is_dirty = False, data = (\<lambda>_. 0)\<rparr>"

definition ResetMemory :: "Page \<Rightarrow> Page" where
  "ResetMemory p = p\<lparr>data := (\<lambda>_. 0)\<rparr>"

text \<open>
  The pool. \<open>pages\<close> is the array \<open>pages_\<close>, indexed by frame id; \<open>free_list\<close> is the
  \<open>std::list\<close> \<open>free_list_\<close>, its back the last element. \<open>disk\<close> is what the disk manager
  holds for each page id: the disk scheduler is outside this code, and its contract is
  that a scheduled write stores the buffer, a scheduled read fills it, and the future
  tells whether the request succeeded. That outcome is an argument of each operation that
  schedules a request.
\<close>

record BufferPoolManager =
  pool_size :: nat
  pages :: "Page list"
  page_table :: "page_id_t \<rightharpoonup> frame_id_t"
  free_list :: "frame_id_t list"
  next_page_id :: page_id_t
  replacer :: LRUKReplacer
  disk :: "page_id_t \<Rightarrow> page_data"

definition BufferPoolManager_new :: "nat \<Rightarrow> nat \<Rightarrow> (page_id_t \<Rightarrow> page_data) \<Rightarrow> BufferPoolManager" where
  "BufferPoolManager_new n replacer_k0 disk0 =
     \<lparr>pool_size = n,
      pages = replicate n new_Page,
      page_table = Map.empty,
      free_list = map int [0..<n],
      next_page_id = 0,
      replacer = LRUKReplacer_new n replacer_k0,
      disk = disk0\<rparr>"

text \<open>\<open>pages_[frame_id]\<close>, read and written.\<close>

definition page_at :: "BufferPoolManager \<Rightarrow> frame_id_t \<Rightarrow> Page" where
  "page_at s frame_id = pages s ! nat frame_id"

definition set_page :: "frame_id_t \<Rightarrow> Page \<Rightarrow> BufferPoolManager \<Rightarrow> BufferPoolManager" where
  "set_page frame_id p s = s\<lparr>pages := (pages s)[nat frame_id := p]\<rparr>"

text \<open>\<open>page_table_.emplace(page_id, frame_id)\<close> inserts only when the key is absent.\<close>

definition emplace :: "page_id_t \<Rightarrow> frame_id_t \<Rightarrow> BufferPoolManager \<Rightarrow> BufferPoolManager" where
  "emplace pid frame_id s =
     (if page_table s pid = None then s\<lparr>page_table := (page_table s)(pid \<mapsto> frame_id)\<rparr> else s)"

text \<open>A scheduled write of the page in a frame under a page id: the disk after it.\<close>

definition write_page :: "page_id_t \<Rightarrow> frame_id_t \<Rightarrow> BufferPoolManager \<Rightarrow> BufferPoolManager" where
  "write_page pid frame_id s = s\<lparr>disk := (disk s)(pid := data (page_at s frame_id))\<rparr>"

text \<open>A scheduled read of a page id into the buffer of a frame.\<close>

definition read_page :: "page_id_t \<Rightarrow> frame_id_t \<Rightarrow> BufferPoolManager \<Rightarrow> BufferPoolManager" where
  "read_page pid frame_id s = set_page frame_id ((page_at s frame_id)\<lparr>data := disk s pid\<rparr>) s"

subsection \<open>NewPage\<close>

text \<open>
  The tail that both branches of \<open>NewPage\<close> share: record the access, mark the frame
  non-evictable, allocate the page id, set it in the page and enter it in the page table.
  The result is the page id written to \<open>*page_id\<close> and the frame whose page is returned.
\<close>

definition NewPage_install ::
  "frame_id_t \<Rightarrow> BufferPoolManager \<Rightarrow> error + (page_id_t \<times> frame_id_t) option \<times> BufferPoolManager"
where
  "NewPage_install frame_id s =
     (case RecordAccess (replacer s) frame_id of
        Inl e \<Rightarrow> Inl e
      | Inr r1 \<Rightarrow>
          (let s1 = s\<lparr>replacer := SetEvictable r1 frame_id False\<rparr>;
               pid = next_page_id s1;
               s2 = s1\<lparr>next_page_id := next_page_id s1 + 1\<rparr>;
               s3 = set_page frame_id ((page_at s2 frame_id)\<lparr>page_id := pid\<rparr>) s2
           in Inr (Some (pid, frame_id), emplace pid frame_id s3)))"

text \<open>
  The branch of \<open>NewPage\<close> for a frame that \<open>Evict\<close> has returned: a dirty page is written
  back, its memory reset and its page id erased from the page table; a clean page is left
  in the page table. \<open>write_ok\<close> is what the future of the write returns.
  \<open>page_table_.erase(page_table_.find(old_page_id))\<close> with an absent key erases the end
  iterator, which is a fault as well.
\<close>

definition NewPage_evicted ::
  "bool \<Rightarrow> frame_id_t \<Rightarrow> BufferPoolManager \<Rightarrow>
   error + (page_id_t \<times> frame_id_t) option \<times> BufferPoolManager"
where
  "NewPage_evicted write_ok frame_id s =
     (if is_dirty (page_at s frame_id) then
        (let old_page_id = page_id (page_at s frame_id);
             s2 = write_page (page_id (page_at s frame_id)) frame_id s
         in if \<not> write_ok then
              Inl (ExecutionException ''BufferPoolManager::NewPage: write page error!'')
            else
              (let s3 = set_page frame_id (ResetMemory (page_at s2 frame_id)) s2
               in if page_table s3 old_page_id = None then Inl EraseEnd
                  else NewPage_install frame_id
                         (s3\<lparr>page_table := (page_table s3)(old_page_id := None)\<rparr>)))
      else NewPage_install frame_id s)"

text \<open>
  \<open>NewPage(&page_id)\<close>. The result of \<open>Evict\<close> is not looked at: when it is \<open>false\<close>,
  \<open>frame_id\<close> was never written.
\<close>

definition NewPage ::
  "bool \<Rightarrow> BufferPoolManager \<Rightarrow>
   (error + (page_id_t \<times> frame_id_t) option \<times> BufferPoolManager) option"
where
  "NewPage write_ok s =
     (if free_list s \<noteq> [] then
        (let frame_id = last (free_list s);
             s1 = s\<lparr>free_list := butlast (free_list s)\<rparr>
         in Some (NewPage_install frame_id s1))
      else if Size (replacer s) > 0 then
        (case Evict (replacer s) of
           None \<Rightarrow> None
         | Some (Inl e) \<Rightarrow> Some (Inl e)
         | Some (Inr (None, r1)) \<Rightarrow> Some (Inl UninitializedRead)
         | Some (Inr (Some frame_id, r1)) \<Rightarrow>
             Some (NewPage_evicted write_ok frame_id (s\<lparr>replacer := r1\<rparr>)))
      else Some (Inr (None, s)))"

subsection \<open>FetchPage\<close>

text \<open>The tail of the two miss branches of \<open>FetchPage\<close>, after the read.\<close>

definition FetchPage_install ::
  "page_id_t \<Rightarrow> frame_id_t \<Rightarrow> BufferPoolManager \<Rightarrow> error + frame_id_t option \<times> BufferPoolManager"
where
  "FetchPage_install pid frame_id s =
     (case RecordAccess (replacer s) frame_id of
        Inl e \<Rightarrow> Inl e
      | Inr r1 \<Rightarrow>
          (let s1 = s\<lparr>replacer := SetEvictable r1 frame_id False\<rparr>;
               s2 = set_page frame_id ((page_at s1 frame_id)\<lparr>page_id := pid\<rparr>) s1
           in Inr (Some frame_id, emplace pid frame_id s2)))"

text \<open>
  The branch of \<open>FetchPage\<close> for a frame that \<open>Evict\<close> has returned: the old page id is
  erased from the page table, dirty or not; a dirty page is written back and its memory
  reset; then the page is read. \<open>write_ok\<close> and \<open>read_ok\<close> are what the futures of the
  write and of the read return.
\<close>

definition FetchPage_evicted ::
  "bool \<Rightarrow> bool \<Rightarrow> page_id_t \<Rightarrow> frame_id_t \<Rightarrow> BufferPoolManager \<Rightarrow>
   error + frame_id_t option \<times> BufferPoolManager"
where
  "FetchPage_evicted write_ok read_ok pid frame_id s =
     (let old_page_id = page_id (page_at s frame_id)
      in if page_table s old_page_id = None then Inl EraseEnd
         else
           (let s2 = s\<lparr>page_table := (page_table s)(old_page_id := None)\<rparr>;
                dirty = is_dirty (page_at s2 frame_id);
                s3 = (if dirty then write_page (page_id (page_at s2 frame_id)) frame_id s2
                      else s2)
            in if dirty \<and> \<not> write_ok then
                 Inl (ExecutionException ''BufferPoolManager::FetchPage: write page error!'')
               else
                 (let s4 = (if dirty
                            then set_page frame_id (ResetMemory (page_at s3 frame_id)) s3
                            else s3);
                      s5 = read_page pid frame_id s4
                  in if \<not> read_ok then
                       Inl (ExecutionException
                              ''BufferPoolManager::FetchPage: read page error!'')
                     else FetchPage_install pid frame_id s5)))"

text \<open>\<open>FetchPage(page_id)\<close>: the frame whose page is returned, or \<open>None\<close> for \<open>nullptr\<close>.\<close>

definition FetchPage ::
  "bool \<Rightarrow> bool \<Rightarrow> BufferPoolManager \<Rightarrow> page_id_t \<Rightarrow>
   (error + frame_id_t option \<times> BufferPoolManager) option"
where
  "FetchPage write_ok read_ok s pid =
     (case page_table s pid of
        Some frame_id \<Rightarrow> Some (Inr (Some frame_id, s))
      | None \<Rightarrow>
          if free_list s \<noteq> [] then
            (let frame_id = last (free_list s);
                 s1 = s\<lparr>free_list := butlast (free_list s)\<rparr>;
                 s2 = read_page pid frame_id s1
             in if \<not> read_ok then
                  Some (Inl (ExecutionException ''BufferPoolManager::FetchPage: read page error!''))
                else Some (FetchPage_install pid frame_id s2))
          else if Size (replacer s) > 0 then
            (case Evict (replacer s) of
               None \<Rightarrow> None
             | Some (Inl e) \<Rightarrow> Some (Inl e)
             | Some (Inr (None, r1)) \<Rightarrow> Some (Inl UninitializedRead)
             | Some (Inr (Some frame_id, r1)) \<Rightarrow>
                 Some (FetchPage_evicted write_ok read_ok pid frame_id (s\<lparr>replacer := r1\<rparr>)))
          else Some (Inr (None, s)))"

subsection \<open>UnpinPage, FlushPage, DeletePage\<close>

definition UnpinPage :: "BufferPoolManager \<Rightarrow> page_id_t \<Rightarrow> bool \<Rightarrow> bool \<times> BufferPoolManager" where
  "UnpinPage s pid dirty =
     (case page_table s pid of
        None \<Rightarrow> (False, s)
      | Some frame_id \<Rightarrow>
          (let s1 = (if dirty \<and> \<not> is_dirty (page_at s frame_id)
                     then set_page frame_id ((page_at s frame_id)\<lparr>is_dirty := True\<rparr>) s
                     else s);
               s2 = (if pin_count (page_at s1 frame_id) > 0
                     then set_page frame_id
                            ((page_at s1 frame_id)\<lparr>pin_count := pin_count (page_at s1 frame_id) - 1\<rparr>)
                            s1
                     else s1);
               s3 = (if pin_count (page_at s2 frame_id) = 0
                     then s2\<lparr>replacer := SetEvictable (replacer s2) frame_id True\<rparr>
                     else s2)
           in (True, s3)))"

definition FlushPage :: "bool \<Rightarrow> BufferPoolManager \<Rightarrow> page_id_t \<Rightarrow> error + bool \<times> BufferPoolManager" where
  "FlushPage write_ok s pid =
     (case page_table s pid of
        None \<Rightarrow> Inr (False, s)
      | Some frame_id \<Rightarrow>
          (let s1 = write_page pid frame_id s
           in if \<not> write_ok then
                Inl (ExecutionException ''BufferPoolManager::FlushPage: write page error!'')
              else Inr (True, set_page frame_id ((page_at s1 frame_id)\<lparr>is_dirty := False\<rparr>) s1)))"

text \<open>
  \<open>DeletePage(page_id)\<close>. \<open>DeallocatePage\<close> does nothing. The exception of the replacer's
  \<open>Remove\<close> passes through, and it leaves the pool as the statements before it have made
  it: \<open>page_table_.erase\<close> comes before \<open>replacer_->Remove\<close>, so the page id is no longer
  in the page table, while the replacer, which throws before it changes anything, the free
  list and the page are as they were. The result \<open>Inl (e, s')\<close> is the exception \<open>e\<close> with the
  pool \<open>s'\<close> that the call leaves behind.
\<close>

definition DeletePage ::
  "BufferPoolManager \<Rightarrow> page_id_t \<Rightarrow>
   (error \<times> BufferPoolManager) + (bool \<times> BufferPoolManager)"
where
  "DeletePage s pid =
     (case page_table s pid of
        None \<Rightarrow> Inr (False, s)
      | Some frame_id \<Rightarrow>
          if pin_count (page_at s frame_id) > 0 then Inr (False, s)
          else
            (let s1 = s\<lparr>page_table := (page_table s)(pid := None)\<rparr>
             in case Remove_frame (replacer s1) frame_id of
                  Inl e \<Rightarrow> Inl (e, s1)
                | Inr r1 \<Rightarrow>
                    (let s2 = s1\<lparr>replacer := r1, free_list := free_list s1 @ [frame_id]\<rparr>
                     in Inr (True, set_page frame_id (ResetMemory (page_at s2 frame_id)) s2))))"

subsection \<open>Example states\<close>

text \<open>
  A pool of one frame with \<open>K = 2\<close> over a zeroed disk, and the states it goes through
  under \<open>NewPage\<close>; \<open>UnpinPage(0, false)\<close>, \<open>NewPage\<close>; \<open>UnpinPage(1, false)\<close>,
  \<open>DeletePage(1)\<close>. Every request to the disk succeeds.
\<close>

definition pool_example :: BufferPoolManager where
  "pool_example = BufferPoolManager_new 1 2 (\<lambda>_ _. 0)"

definition pool_after_NewPage :: BufferPoolManager where
  "pool_after_NewPage =
     (case NewPage True pool_example of Some (Inr (_, s)) \<Rightarrow> s | _ \<Rightarrow> pool_example)"

definition pool_after_second_NewPage :: BufferPoolManager where
  "pool_after_second_NewPage =
     (case NewPage True (snd (UnpinPage pool_after_NewPage 0 False)) of
        Some (Inr (_, s)) \<Rightarrow> s
      | _ \<Rightarrow> pool_example)"

definition pool_after_DeletePage :: BufferPoolManager where
  "pool_after_DeletePage =
     (case DeletePage (snd (UnpinPage pool_after_second_NewPage 1 False)) 1 of
        Inr (_, s) \<Rightarrow> s
      | _ \<Rightarrow> pool_example)"

text \<open>
  A pool of two frames with \<open>K = 2\<close> over a zeroed disk, and the states it goes through
  under \<open>FetchPage(0)\<close>, which brings in a page id that \<open>NewPage\<close> has not allocated yet;
  \<open>UnpinPage(0, false)\<close>; \<open>NewPage\<close>.
\<close>

definition pool2_example :: BufferPoolManager where
  "pool2_example = BufferPoolManager_new 2 2 (\<lambda>_ _. 0)"

definition pool2_after_FetchPage :: BufferPoolManager where
  "pool2_after_FetchPage =
     (case FetchPage True True pool2_example 0 of
        Some (Inr (_, s)) \<Rightarrow> s
      | _ \<Rightarrow> pool2_example)"

definition pool2_after_NewPage :: BufferPoolManager where
  "pool2_after_NewPage =
     (case NewPage True (snd (UnpinPage pool2_after_FetchPage 0 False)) of
        Some (Inr (_, s)) \<Rightarrow> s
      | _ \<Rightarrow> pool2_example)"

subsection \<open>The state in which a new page is installed\<close>

text \<open>
  \<open>install_state s s0\<close> relates the state \<open>s\<close> in which \<open>NewPage\<close> is called to the state
  \<open>s0\<close> in which its shared tail starts: the next page id and the pool size are the same,
  every entry of the page table was there before (so the next page id is still not
  resident if it was not), the pages are as many and none is pinned if none was, and the
  replacer has the same size.
\<close>

definition install_state :: "BufferPoolManager \<Rightarrow> BufferPoolManager \<Rightarrow> bool" where
  "install_state s s0 =
     (next_page_id s0 = next_page_id s \<and> pool_size s0 = pool_size s \<and>
      (\<forall>p g. page_table s0 p = Some g \<longrightarrow> page_table s p = Some g) \<and>
      length (pages s0) = length (pages s) \<and>
      ((\<forall>p \<in> set (pages s). pin_count p = 0) \<longrightarrow> (\<forall>p \<in> set (pages s0). pin_count p = 0)) \<and>
      replacer_size (replacer s0) = replacer_size (replacer s))"

subsection \<open>What every state of the pool satisfies\<close>

text \<open>
  The array of pages and the replacer have the size of the pool, and no page is pinned:
  the only statement of the pool that writes \<open>pin_count_\<close> is the decrement in \<open>UnpinPage\<close>,
  under \<open>pin_count_ > 0\<close>.
\<close>

definition pool_inv :: "BufferPoolManager \<Rightarrow> bool" where
  "pool_inv s =
     (length (pages s) = pool_size s \<and> replacer_size (replacer s) = pool_size s \<and>
      (\<forall>p \<in> set (pages s). pin_count p = 0))"

text \<open>
  Every frame that the page table names is a frame of the pool: an entry is made only
  after \<open>RecordAccess\<close> has accepted the frame, which throws for a frame that is not below
  the size of the replacer.
\<close>

definition table_inv :: "BufferPoolManager \<Rightarrow> bool" where
  "table_inv s = (\<forall>p g. page_table s p = Some g \<longrightarrow> nat g < pool_size s)"

section \<open>Properties of the trie\<close>

lemmas trie_defs =
  Put_def Get_def Remove_def alloc_def set_child_def erase_child_def empty_node_def
  value_node_def cast_value_def is_value_node_def

subsection \<open>What \<open>Put\<close> leaves alone and what it builds\<close>

lemma Put_loop_length: "length h \<le> length (Put_loop h cur new_cur key v)"
proof (induction h cur new_cur key v rule: Put_loop.induct)
  case (3 h cur new_cur ch k key v)
  then show ?case
    by (auto simp: alloc_def set_child_def split: option.splits) (meson Suc_leD le_trans)+
qed (auto simp: alloc_def set_child_def split: option.splits)

lemma Put_loop_frame:
  "a < length h \<Longrightarrow> a \<noteq> new_cur \<Longrightarrow> Put_loop h cur new_cur key v ! a = h ! a"
proof (induction h cur new_cur key v rule: Put_loop.induct)
  case (3 h cur new_cur ch k key v)
  then show ?case
    by (auto simp: alloc_def set_child_def nth_append split: option.splits)
qed (auto simp: alloc_def set_child_def nth_append split: option.splits)

lemma Put_loop_walk:
  "new_cur < length h \<Longrightarrow> key \<noteq> [] \<Longrightarrow>
   \<exists>a. walk (Put_loop h cur new_cur key v) new_cur key = Some a \<and>
       val (Put_loop h cur new_cur key v ! a) = Some v"
proof (induction key arbitrary: h cur new_cur)
  case Nil
  then show ?case by simp
next
  case (Cons ch key')
  show ?case
  proof (cases key')
    case Nil
    then show ?thesis using Cons.prems(1)
      by (auto simp: alloc_def set_child_def nth_append value_node_def split: option.splits)
  next
    case (Cons k key)
    let ?n = "case (case cur of None \<Rightarrow> None | Some c \<Rightarrow> children (h ! c) ch) of
                 Some c' \<Rightarrow> h ! c' | None \<Rightarrow> empty_node"
    let ?cur = "case (case cur of None \<Rightarrow> None | Some c \<Rightarrow> children (h ! c) ch) of
                 Some c' \<Rightarrow> Some c' | None \<Rightarrow> cur"
    let ?h2 = "set_child (h @ [?n]) new_cur ch (length h)"
    let ?R = "Put_loop ?h2 ?cur (length h) key' v"
    have R: "Put_loop h cur new_cur (ch # key') v = ?R"
      unfolding Cons by (simp add: alloc_def split: option.splits)
    have len: "length ?h2 = Suc (length h)" by (simp add: set_child_def)
    have "?R ! new_cur = ?h2 ! new_cur"
      using Cons.prems(1) by (intro Put_loop_frame) (auto simp: len)
    then have child: "children (?R ! new_cur) ch = Some (length h)"
      using Cons.prems(1) by (simp add: set_child_def nth_append)
    have "\<exists>a. walk ?R (length h) key' = Some a \<and> val (?R ! a) = Some v"
      by (rule Cons.IH) (simp_all add: len Cons)
    then show ?thesis
      unfolding R using child by simp
  qed
qed

lemma Put_Get_new:
  assumes "Put h t key v = (h', t')"
  shows "Get h' t' (type_of v) key = Inr (Some v)"
proof (cases "key = []")
  case True
  then show ?thesis using assms
    by (auto simp: Put_def Get_def alloc_def set_child_def cast_value_def value_node_def nth_append
        split: option.splits)
next
  case False
  define n where "n = (case t of Some root \<Rightarrow> h ! root | None \<Rightarrow> empty_node)"
  have h': "h' = Put_loop (h @ [n]) t (length h) key v" and t': "t' = Some (length h)"
    using assms False by (auto simp: Put_def alloc_def n_def split: option.splits)
  obtain a where "walk h' (length h) key = Some a" "val (h' ! a) = Some v"
    using Put_loop_walk [of "length h" "h @ [n]" key t v] False unfolding h' by auto
  then show ?thesis
    using False by (simp add: Get_def t' cast_value_def)
qed

lemma Put_frame:
  assumes "Put h t key v = (h', t')" and "a < length h"
  shows "h' ! a = h ! a" 
proof (cases "key = []")
  case True
  then show ?thesis using assms
    by (auto simp: Put_def alloc_def set_child_def nth_append split: option.splits)
next
  case False
  define n where "n = (case t of Some root \<Rightarrow> h ! root | None \<Rightarrow> empty_node)"
  have h': "h' = Put_loop (h @ [n]) t (length h) key v"
    using assms False by (auto simp: Put_def alloc_def n_def split: option.splits)
  show ?thesis unfolding h'
    using assms(2) Put_loop_frame [of a "h @ [n]" "length h" t key v] by (simp add: nth_append)
qed

lemma walk_frame:
  assumes "closed h" and "\<And>a. a < length h \<Longrightarrow> h' ! a = h ! a"
  shows "r < length h \<Longrightarrow> walk h' r key = walk h r key \<and> (\<forall>a. walk h r key = Some a \<longrightarrow> a < length h)"
proof (induction key arbitrary: r)
  case Nil
  then show ?case by simp
next
  case (Cons ch key)
  show ?case
  proof (cases "children (h ! r) ch")
    case None
    then show ?thesis using Cons.prems assms(2) by simp
  next
    case (Some c)
    then have "c < length h"
      using assms(1) Cons.prems by (auto simp: closed_def ran_def)
    then show ?thesis using Cons.IH [of c] Some Cons.prems assms(2) by simp
  qed
qed

lemma Put_Get_old:
  assumes "wf_trie h t" and "Put h t key v = (h', t')"
  shows "Get h' t T k = Get h t T k"
proof (cases t)
  case None
  then show ?thesis by (simp add: Get_def)
next
  case (Some root)
  have fr: "\<And>a. a < length h \<Longrightarrow> h' ! a = h ! a"
    using Put_frame [OF assms(2)] .
  have root: "root < length h" and cl: "closed h"
    using assms(1) Some by (auto simp: wf_trie_def)
  have w: "walk h' root k = walk h root k" and b: "\<And>a. walk h root k = Some a \<Longrightarrow> a < length h"
    using walk_frame [OF cl fr root, of k] by auto
  show ?thesis
  proof (cases "walk h root k")
    case None
    then show ?thesis using w Some by (simp add: Get_def)
  next
    case (Some cur)
    have cur: "cur < length h" using b Some by simp
    have "\<And>c. children (h ! cur) (CHR 0x00) = Some c \<Longrightarrow> c < length h"
      using cl cur by (auto simp: closed_def ran_def)
    then show ?thesis
      using w Some \<open>t = Some root\<close> fr cur
      by (auto simp: Get_def cast_value_def split: option.splits)
  qed
qed


lemma closed_alloc:
  "closed h \<Longrightarrow> \<forall>c \<in> ran (children n). c < length h \<Longrightarrow> closed (h @ [n])"
  by (auto simp: closed_def nth_append less_Suc_eq)

lemma closed_set_child:
  "closed h \<Longrightarrow> c < length h \<Longrightarrow> closed (set_child h p ch c)"
  by (cases "p < length h")
    (auto simp: closed_def set_child_def nth_list_update ran_def split: if_splits)

lemma closed_node: "closed h \<Longrightarrow> a < length h \<Longrightarrow> \<forall>c \<in> ran (children (h ! a)). c < length h"
  by (simp add: closed_def)

lemma Put_loop_closed:
  "closed h \<Longrightarrow> (\<And>c. cur = Some c \<Longrightarrow> c < length h) \<Longrightarrow>
   closed (Put_loop h cur new_cur key v)"
proof (induction key arbitrary: h cur new_cur)
  case Nil
  then show ?case by simp
next
  case (Cons ch key')
  define look where "look = (case cur of None \<Rightarrow> None | Some c \<Rightarrow> children (h ! c) ch)"
  have look: "\<And>c'. look = Some c' \<Longrightarrow> c' < length h"
    using Cons.prems by (auto simp: look_def closed_def ran_def split: option.splits)
  show ?case
  proof (cases key')
    case Nil
    have "closed (h @ [value_node (case look of Some c' \<Rightarrow> children (h ! c') | None \<Rightarrow> Map.empty) v])"
      using Cons.prems(1) look closed_node [OF Cons.prems(1)]
      by (intro closed_alloc) (auto simp: value_node_def split: option.splits)
    then show ?thesis
      unfolding Nil
      by (cases look) (auto simp: alloc_def look_def [symmetric] intro!: closed_set_child)
  next
    case (Cons k key)
    let ?n = "case look of Some c' \<Rightarrow> h ! c' | None \<Rightarrow> empty_node"
    let ?cur = "case look of Some c' \<Rightarrow> Some c' | None \<Rightarrow> cur"
    let ?h2 = "set_child (h @ [?n]) new_cur ch (length h)"
    have R: "Put_loop h cur new_cur (ch # key') v = Put_loop ?h2 ?cur (length h) key' v"
      unfolding Cons by (simp add: alloc_def look_def split: option.splits)
    have "closed (h @ [?n])"
      using Cons.prems(1) look closed_node [OF Cons.prems(1)]
      by (intro closed_alloc) (auto simp: empty_node_def split: option.splits)
    then have "closed ?h2"
      by (intro closed_set_child) simp_all
    moreover have "\<And>c. ?cur = Some c \<Longrightarrow> c < length ?h2"
      using look Cons.prems(2) by (auto simp: set_child_def less_Suc_eq split: option.splits)
    ultimately show ?thesis
      unfolding R by (rule Cons.IH)
  qed
qed

lemma Put_wf:
  assumes "wf_trie h t" and "Put h t key v = (h', t')"
  shows "wf_trie h' t' \<and> wf_trie h' t"
proof -
  define n where "n = (case t of Some root \<Rightarrow> h ! root | None \<Rightarrow> empty_node)"
  have cl: "closed h" and root: "\<And>r. t = Some r \<Longrightarrow> r < length h"
    using assms(1) by (auto simp: wf_trie_def)
  have c0: "closed (h @ [n])"
    using cl root closed_node [OF cl]
    by (intro closed_alloc) (auto simp: n_def empty_node_def split: option.splits)
  have t': "t' = Some (length h)"
    using assms(2) by (auto simp: Put_def alloc_def Let_def split: option.splits if_splits)
  have "closed h' \<and> length h < length h'"
  proof (cases "key = []")
    case True
    have "closed (h @ [n] @ [value_node Map.empty v])"
      using closed_alloc [OF c0, of "value_node Map.empty v"] by (simp add: value_node_def)
    then have "closed (set_child (h @ [n] @ [value_node Map.empty v]) (length h) (CHR 0x00) (Suc (length h)))"
      by (intro closed_set_child) simp_all
    then show ?thesis
      using assms(2) True by (auto simp: Put_def alloc_def n_def set_child_def split: option.splits)
  next
    case False
    have h': "h' = Put_loop (h @ [n]) t (length h) key v"
      using assms(2) False by (auto simp: Put_def alloc_def n_def split: option.splits)
    have "closed h'"
      unfolding h' using c0 root by (intro Put_loop_closed) (auto simp: less_Suc_eq)
    moreover have "length (h @ [n]) \<le> length h'"
      unfolding h' by (rule Put_loop_length)
    ultimately show ?thesis by simp
  qed
  then show ?thesis
    using root by (auto simp: wf_trie_def t' split: option.splits)
qed

lemma wf_empty: "wf_trie [] None"
  by (simp add: wf_trie_def closed_def)

subsection \<open>\<open>Remove\<close> keeps the store well-formed\<close>

lemma closed_erase_child: "closed h \<Longrightarrow> closed (erase_child h p ch)"
  by (cases "p < length h")
    (auto simp: closed_def erase_child_def nth_list_update ran_def split: if_splits)

lemma length_set_child [simp]: "length (set_child h p ch c) = length h"
  by (simp add: set_child_def)

lemma length_erase_child [simp]: "length (erase_child h p ch) = length h"
  by (simp add: erase_child_def)

lemma Remove_clone_closed:
  assumes "Remove_clone h cur new_cur key path = Inr (h', path')"
    and "closed h" and "cur < length h" and "path_in h path"
  shows "closed h' \<and> length h \<le> length h' \<and> path_in h' path'"
  using assms
proof (induction key arbitrary: h cur new_cur path)
  case Nil
  then show ?case by simp
next
  case (Cons ch key)
  from Cons.prems(1) obtain c where c: "children (h ! cur) ch = Some c"
    by (auto split: option.splits)
  have cl: "c < length h"
    using Cons.prems(2,3) c by (auto simp: closed_def ran_def)
  let ?h2 = "set_child (h @ [h ! c]) new_cur ch (length h)"
  have rec: "Remove_clone ?h2 c (length h) key (path @ [(ch, length h)]) = Inr (h', path')"
    using Cons.prems(1) c by (simp add: alloc_def)
  have "closed (h @ [h ! c])"
    using Cons.prems(2) cl closed_node [OF Cons.prems(2) cl] by (intro closed_alloc) auto
  then have 1: "closed ?h2" by (intro closed_set_child) simp_all
  have 2: "c < length ?h2" using cl by simp
  have 3: "path_in ?h2 (path @ [(ch, length h)])"
    using Cons.prems(4) by (auto simp: path_in_def)
  show ?case
    using Cons.IH [OF rec 1 2 3] by simp
qed

lemma Remove_prune_closed:
  "closed h \<Longrightarrow> path_in h path \<Longrightarrow>
   closed (Remove_prune h i path) \<and> length h \<le> length (Remove_prune h i path)"
proof (induction h i path rule: Remove_prune.induct)
  case (1 h i ch node pch parent_node rest)
  let ?h' = "(if i = 0 \<and> is_value_node (h ! node) then
           (if dom (children (h ! node)) = {} then erase_child h parent_node ch
            else set_child (h @ [\<lparr>children = children (h ! node), val = None\<rparr>]) parent_node ch (length h))
         else if dom (children (h ! node)) = {} \<and> \<not> is_value_node (h ! node) then
           erase_child h parent_node ch
         else h)"
  have eq: "Remove_prune h i ((ch, node) # (pch, parent_node) # rest)
              = Remove_prune ?h' (i + 1) ((pch, parent_node) # rest)"
    by (simp add: alloc_def Let_def)
  have n: "node < length h" using "1.prems"(2) by (simp add: path_in_def)
  have "closed (h @ [\<lparr>children = children (h ! node), val = None\<rparr>])"
    using "1.prems"(1) closed_node [OF "1.prems"(1) n] by (intro closed_alloc) auto
  then have c1: "closed (set_child (h @ [\<lparr>children = children (h ! node), val = None\<rparr>])
                   parent_node ch (length h))"
    by (intro closed_set_child) simp_all
  have c: "closed ?h'"
    using "1.prems"(1) c1 by (simp add: closed_erase_child)
  have l: "length h \<le> length ?h'" by simp
  have p: "path_in ?h' ((pch, parent_node) # rest)"
    using "1.prems"(2) by (auto simp: path_in_def)
  have "closed (Remove_prune ?h' (i + 1) ((pch, parent_node) # rest)) \<and>
        length ?h' \<le> length (Remove_prune ?h' (i + 1) ((pch, parent_node) # rest))"
    by (rule "1.IH" [OF _ c p]) (simp add: alloc_def)
  then show ?case
    unfolding eq using l by (meson le_trans)
qed simp_all

lemma Remove_wf:
  assumes "wf_trie h t" and "Remove h t key = Inr (h', t')"
  shows "wf_trie h' t' \<and> wf_trie h' t"
proof -
  obtain root where t: "t = Some root"
    using assms(2) by (cases t) (simp_all add: Remove_def alloc_def)
  have cl: "closed h" and root: "root < length h"
    using assms(1) t by (auto simp: wf_trie_def)
  let ?h0 = "h @ [h ! root]"
  let ?h1 = "if key = [] then erase_child ?h0 (length h) (CHR 0x00) else ?h0"
  have c0: "closed ?h0"
    using cl closed_node [OF cl root] by (intro closed_alloc) auto
  have c1: "closed ?h1" using c0 by (simp add: closed_erase_child)
  have l1: "length ?h1 = Suc (length h)" by simp
  have rm: "Remove h t key =
      (case walk ?h1 root key of
                None \<Rightarrow> Inr (?h1, Some (length h))
              | Some cur \<Rightarrow>
                  if \<not> is_value_node (?h1 ! cur) then Inr (?h1, Some (length h))
                  else
                    (case Remove_clone ?h1 root (length h) key [(CHR 0x00, length h)] of
                       Inl e \<Rightarrow> Inl e
                     | Inr (h2, path) \<Rightarrow>
                         (let h3 = Remove_prune h2 0 (rev path)
                          in if dom (children (h3 ! length h)) = {} then Inr (h3, None)
                             else Inr (h3, Some (length h)))))"
    by (simp add: Remove_def t alloc_def Let_def)
  have "closed h' \<and> length h < length h'"
  proof (cases "walk ?h1 root key")
    case None
    then have "h' = ?h1" using assms(2) rm by simp
    then show ?thesis using c1 by simp
  next
    case (Some cur)
    show ?thesis
    proof (cases "is_value_node (?h1 ! cur)")
      case False
      then have "h' = ?h1" using assms(2) unfolding rm Some by simp
      then show ?thesis using c1 by simp
    next
      case True
      obtain h2 path where rc: "Remove_clone ?h1 root (length h) key [(CHR 0x00, length h)] = Inr (h2, path)"
        using assms(2) True unfolding rm Some
        by (cases "Remove_clone ?h1 root (length h) key [(CHR 0x00, length h)]") auto
      have h': "h' = Remove_prune h2 0 (rev path)"
        using assms(2) True unfolding rm Some rc by (simp add: Let_def split: if_splits)
      have "closed h2 \<and> length ?h1 \<le> length h2 \<and> path_in h2 path"
        using rc c1 by (rule Remove_clone_closed) (use root in \<open>simp_all add: path_in_def\<close>)
      then have 2: "closed h2" "length ?h1 \<le> length h2" "path_in h2 (rev path)"
        by (simp_all add: path_in_def)
      have "closed h' \<and> length h2 \<le> length h'"
        unfolding h' by (rule Remove_prune_closed [OF 2(1,3)])
      then show ?thesis using 2(2) l1 by simp
    qed
  qed
  moreover have "t' = None \<or> t' = Some (length h)"
    using assms(2) unfolding rm by (auto simp: Let_def split: option.splits if_splits sum.splits)
  ultimately show ?thesis
    using root t by (auto simp: wf_trie_def)
qed

text \<open>
  Claim C6. For every trie snapshot \<open>S\<close> (a well-formed store \<open>h\<close> with root \<open>S\<close>),
  every key \<open>k\<close> and value \<open>v\<close>: when \<open>Put(k, v)\<close> on \<open>S\<close> yields the snapshot \<open>S'\<close> in
  the store \<open>h'\<close>, a \<open>Get\<close> on \<open>S\<close> in \<open>h'\<close> returns what it returned in \<open>h\<close>, before the
  \<open>Put\<close> (for \<open>k\<close> and for every other key \<open>k'\<close>, at every type \<open>T\<close>), and \<open>Get(k)\<close> on
  \<open>S'\<close> at the type of \<open>v\<close> returns \<open>v\<close>. The empty trie in the empty store is
  well-formed, and \<open>Put\<close> and \<open>Remove\<close> keep the store well-formed for the old and for the
  new snapshot (\<open>wf_empty\<close>, \<open>Put_wf\<close>, \<open>Remove_wf\<close>).
\<close>

theorem Put_Get_snapshots:
  assumes "wf_trie h S" and "Put h S k v = (h', S')"
  shows "Get h' S T k' = Get h S T k' \<and> Get h' S' (type_of v) k = Inr (Some v)"
  using Put_Get_old [OF assms] Put_Get_new [OF assms(2)] by simp

theorem Put_Get_snapshots_witness:
  "wf_trie [\<lparr>children = [CHR ''a'' \<mapsto> 1], val = None\<rparr>,
            \<lparr>children = Map.empty, val = Some (UInt32 1)\<rparr>] (Some 0) \<and>
   Get (fst (Put [\<lparr>children = [CHR ''a'' \<mapsto> 1], val = None\<rparr>,
                  \<lparr>children = Map.empty, val = Some (UInt32 1)\<rparr>] (Some 0) ''a'' (UInt32 2)))
     (Some 0) T_uint32 ''a'' = Inr (Some (UInt32 1)) \<and>
   Get (fst (Put [\<lparr>children = [CHR ''a'' \<mapsto> 1], val = None\<rparr>,
                  \<lparr>children = Map.empty, val = Some (UInt32 1)\<rparr>] (Some 0) ''a'' (UInt32 2)))
     (snd (Put [\<lparr>children = [CHR ''a'' \<mapsto> 1], val = None\<rparr>,
                \<lparr>children = Map.empty, val = Some (UInt32 1)\<rparr>] (Some 0) ''a'' (UInt32 2)))
     T_uint32 ''a'' = Inr (Some (UInt32 2))"
proof -
  let ?h = "[\<lparr>children = [CHR ''a'' \<mapsto> 1], val = None\<rparr>,
             \<lparr>children = Map.empty, val = Some (UInt32 1)\<rparr>]"
  let ?P = "Put ?h (Some 0) ''a'' (UInt32 2)"
  have wf: "wf_trie ?h (Some 0)"
    by (simp add: wf_trie_def closed_def less_Suc_eq numeral_2_eq_2 nth_Cons')
  have p: "?P = (fst ?P, snd ?P)" by simp
  have old: "Get ?h (Some 0) T_uint32 ''a'' = Inr (Some (UInt32 1))"
    by (simp add: Get_def cast_value_def)
  show ?thesis
    using wf old Put_Get_snapshots [OF wf p, of T_uint32 "''a''"] by simp
qed

subsection \<open>Where the operations fail\<close>

text \<open>
  Claim C5 says that \<open>Get\<close>, \<open>Put\<close> and \<open>Remove\<close> never raise, that \<open>Get\<close> of the empty key
  on a root without a \<open>'\\0'\<close> child returns "not found", and that \<open>Remove\<close> on the empty
  trie returns a snapshot. The code does otherwise: on the trie that holds only the key
  \<open>a\<close>, \<open>Get\<close> of the empty key leaves by the \<open>std::out_of_range\<close> of \<open>children_.at\<close>;
  on the empty trie, \<open>Remove\<close> dereferences the null root, for a non-empty key and for
  the empty key.
\<close>

theorem Get_Remove_raise:
  "(case Put [] None ''a'' (UInt32 1) of (h, t) \<Rightarrow> Get h t T_uint32 []) = Inl OutOfRange \<and>
   Remove [] None ''a'' = Inl NullPointerDereference \<and>
   Remove [] None [] = Inl NullPointerDereference"
  by (simp add: trie_defs)

text \<open>
  Claim C7 says that \<open>S.Put(k, v).Remove(k)\<close> has no value at \<open>k\<close> and agrees with \<open>S\<close> on
  every other key. The code does otherwise. With \<open>S\<close> the trie that holds \<open>bc\<close>, \<open>Put\<close> of
  \<open>ab\<close> finds no child \<open>a\<close> under the root, keeps \<open>cur\<close> at the root, and at the last
  character takes the children of the root's child \<open>b\<close> for the new node: the result holds
  \<open>abc\<close>, also after \<open>Remove\<close> of \<open>ab\<close>, and \<open>S\<close> does not. With \<open>S\<close> the empty trie and the
  empty key, \<open>Remove\<close> returns a root without children, on which \<open>Get\<close> of the empty key
  raises.
\<close>

theorem Put_Remove_differs:
  "(case Put [] None ''bc'' (UInt32 7) of (h, S) \<Rightarrow>
      (case Put h S ''ab'' (UInt32 1) of (h1, S1) \<Rightarrow>
         (case Remove h1 S1 ''ab'' of
            Inl e \<Rightarrow> None
          | Inr (h2, S2) \<Rightarrow> Some (Get h2 S2 T_uint32 ''abc'', Get h S T_uint32 ''abc''))))
     = Some (Inr (Some (UInt32 7)), Inr None) \<and>
   (case Put [] None [] (UInt32 1) of (h, S1) \<Rightarrow>
      (case Remove h S1 [] of
         Inl e \<Rightarrow> None
       | Inr (h2, S2) \<Rightarrow> Some (Get h2 S2 T_uint32 [])))
     = Some (Inl OutOfRange)"
  by (simp add: trie_defs nth_append)

section \<open>Properties of the replacer\<close>

lemmas rep_defs =
  LRUKReplacer_new_def RecordAccess_def SetEvictable_def Evict_def Evict_take_def
  Remove_frame_def DisLink_def MoveToEnd_def set_frontptr_def set_backptr_def new_LRUKNode_def
  node_RecordAccess_def GetSize_def CleanHistory_def IsHistoryEmpty_def IsBufferEmpty_def
  size_t_of_def Size_def

subsection \<open>What the list primitives leave alone\<close>

lemma DisLink_fields [simp]:
  "node_store (DisLink p r) = node_store r"
  "current_timestamp (DisLink p r) = current_timestamp r"
  "curr_size (DisLink p r) = curr_size r"
  "replacer_size (DisLink p r) = replacer_size r"
  "replacer_k (DisLink p r) = replacer_k r"
  "is_evictable (nodes (DisLink p r) q) = is_evictable (nodes r q)"
  "history (nodes (DisLink p r) q) = history (nodes r q)"
  "node_frame_id (nodes (DisLink p r) q) = node_frame_id (nodes r q)"
  "node_k (nodes (DisLink p r) q) = node_k (nodes r q)"
  by (auto simp: DisLink_def set_frontptr_def set_backptr_def Let_def split: option.splits)

lemma MoveToEnd_fields [simp]:
  "node_store (MoveToEnd p e r) = node_store r"
  "current_timestamp (MoveToEnd p e r) = current_timestamp r"
  "curr_size (MoveToEnd p e r) = curr_size r"
  "replacer_size (MoveToEnd p e r) = replacer_size r"
  "replacer_k (MoveToEnd p e r) = replacer_k r"
  "is_evictable (nodes (MoveToEnd p e r) q) = is_evictable (nodes r q)"
  "history (nodes (MoveToEnd p e r) q) = history (nodes r q)"
  "node_frame_id (nodes (MoveToEnd p e r) q) = node_frame_id (nodes r q)"
  "node_k (nodes (MoveToEnd p e r) q) = node_k (nodes r q)"
  by (auto simp: MoveToEnd_def set_frontptr_def set_backptr_def Let_def split: option.splits)

lemma MoveToEnd_links:
  "p \<noteq> e \<Longrightarrow> frontptr (nodes (MoveToEnd p e r) e) = Some p"
  "p \<noteq> e \<Longrightarrow> backptr (nodes (MoveToEnd p e r) p) = Some e"
  by (auto simp: MoveToEnd_def set_frontptr_def set_backptr_def Let_def split: option.splits)

subsection \<open>A frame that comes back after \<open>Remove\<close>\<close>

lemma Remove_frame_untracks:
  assumes "Remove_frame r0 f = Inr r"
  shows "node_store r f = None" "replacer_size r = replacer_size r0"
    "replacer_k r = replacer_k r0" "current_timestamp r = current_timestamp r0"
  using assms by (auto simp: Remove_frame_def Let_def split: option.splits if_splits)

lemma RecordAccess_untracked:
  assumes "node_store r f = None" and "0 \<le> f" and "f < int (replacer_size r)"
    and "0 < replacer_k r"
  shows "\<exists>r'. RecordAccess r f = Inr r' \<and>
           node_store r' f = Some (Node f) \<and>
           history (nodes r' (Node f)) = [current_timestamp r + 1] \<and>
           \<not> is_evictable (nodes r' (Node f)) \<and>
           frontptr (nodes r' HistoryEnd) = Some (Node f) \<and>
           backptr (nodes r' (Node f)) = Some HistoryEnd"
  using assms
  by (simp add: RecordAccess_def Let_def size_t_of_def MoveToEnd_links node_RecordAccess_def
      new_LRUKNode_def)

subsection \<open>The frame that \<open>Evict\<close> returns\<close>

lemma path_append:
  "link_path nxt x (as @ bs) z = (\<exists>y. link_path nxt x as y \<and> link_path nxt y bs z)"
  by (induction as arbitrary: x) auto

lemma Evict_scan_find:
  assumes "link_path (\<lambda>p. backptr (nodes r p)) p (map Node fs) (Some stop)"
    and "stop \<notin> Node ` set fs"
  shows "Evict_scan r p stop = Some (Inr (map_option Node (find (evictable_frame r) fs)))"
  using assms
proof (induction fs arbitrary: p)
  case Nil
  then show ?case by (simp add: Evict_scan.simps)
next
  case (Cons f fs)
  from Cons.prems have p: "p = Some (Node f)"
    and rest: "link_path (\<lambda>p. backptr (nodes r p)) (backptr (nodes r (Node f))) (map Node fs) (Some stop)"
    and stop: "stop \<noteq> Node f" "stop \<notin> Node ` set fs"
    by auto
  show ?case
  proof (cases "evictable_frame r f")
    case True
    then show ?thesis
      unfolding p using stop by (subst Evict_scan.simps) (simp add: evictable_frame_def [symmetric])
  next
    case False
    then show ?thesis
      unfolding p using stop Cons.IH [OF rest stop(2)]
      by (subst Evict_scan.simps) (simp add: evictable_frame_def [symmetric])
  qed
qed

lemma lists_of_back_history:
  assumes "lists_of r hs cs"
  shows "link_path (\<lambda>p. backptr (nodes r p)) (backptr (nodes r MiddleSeparator)) (map Node (rev hs))
           (Some HistoryEnd)"
proof -
  have "link_path (\<lambda>p. backptr (nodes r p)) (Some BufferStart)
          ((BufferStart # map Node (rev cs)) @ (MiddleSeparator # map Node (rev hs)) @ [HistoryEnd]) None"
    using assms by (simp add: lists_of_def chain_def rev_map)
  then obtain y z where "link_path (\<lambda>p. backptr (nodes r p)) y (MiddleSeparator # map Node (rev hs)) z"
    and "link_path (\<lambda>p. backptr (nodes r p)) z [HistoryEnd] None"
    unfolding path_append by blast
  then show ?thesis by auto
qed

lemma lists_of_back_cache:
  assumes "lists_of r hs cs"
  shows "link_path (\<lambda>p. backptr (nodes r p)) (backptr (nodes r BufferStart)) (map Node (rev cs))
           (Some MiddleSeparator)"
proof -
  have "link_path (\<lambda>p. backptr (nodes r p)) (Some BufferStart)
          ((BufferStart # map Node (rev cs)) @ (MiddleSeparator # map Node (rev hs) @ [HistoryEnd])) None"
    using assms by (simp add: lists_of_def chain_def rev_map)
  then obtain y where "link_path (\<lambda>p. backptr (nodes r p)) (Some BufferStart) (BufferStart # map Node (rev cs)) y"
    and "link_path (\<lambda>p. backptr (nodes r p)) y (MiddleSeparator # map Node (rev hs) @ [HistoryEnd]) None"
    unfolding path_append by blast
  then show ?thesis by auto
qed

lemma lists_of_IsHistoryEmpty:
  assumes "lists_of r hs cs"
  shows "IsHistoryEmpty r \<longleftrightarrow> hs = []"
  using assms by (cases hs) (auto simp: lists_of_def chain_def IsHistoryEmpty_def)

lemma lists_of_IsBufferEmpty:
  assumes "lists_of r hs cs"
  shows "IsBufferEmpty r \<longleftrightarrow> cs = []"
proof -
  have "link_path (\<lambda>p. frontptr (nodes r p)) (Some HistoryEnd)
          ((HistoryEnd # map Node hs) @ (MiddleSeparator # map Node cs @ [BufferStart])) None"
    using assms by (simp add: lists_of_def chain_def)
  then obtain y where "link_path (\<lambda>p. frontptr (nodes r p)) y (MiddleSeparator # map Node cs @ [BufferStart]) None"
    unfolding path_append by blast
  then show ?thesis
    by (cases cs) (auto simp: IsBufferEmpty_def)
qed

lemma Evict_victim_take:
  assumes l: "lists_of r hs cs" and sz: "curr_size r \<noteq> 0"
  shows "Evict r = Some (Inr (case victim r hs cs of None \<Rightarrow> (None, r)
                              | Some f \<Rightarrow> Evict_take r (Node f)))"
proof -
  have H: "Evict_scan r (backptr (nodes r MiddleSeparator)) HistoryEnd
             = Some (Inr (map_option Node (find (evictable_frame r) (rev hs))))"
    by (rule Evict_scan_find [OF lists_of_back_history [OF l]]) auto
  have C: "Evict_scan r (backptr (nodes r BufferStart)) MiddleSeparator
             = Some (Inr (map_option Node (find (evictable_frame r) (rev cs))))"
    by (rule Evict_scan_find [OF lists_of_back_cache [OF l]]) auto
  have he: "IsHistoryEmpty r \<longleftrightarrow> hs = []" by (rule lists_of_IsHistoryEmpty [OF l])
  have be: "IsBufferEmpty r \<longleftrightarrow> cs = []" by (rule lists_of_IsBufferEmpty [OF l])
  show ?thesis
    using sz by (auto simp: Evict_def H C he be victim_def split: option.splits)
qed

lemma find_Some_member: "find P xs = Some x \<Longrightarrow> P x \<and> x \<in> set xs"
  by (induction xs) (auto split: if_splits)

lemma victim_cases:
  assumes "victim r hs cs = Some f"
  shows "evictable_frame r f \<and>
         (f \<in> set hs \<or> (f \<in> set cs \<and> \<not> (\<exists>g \<in> set hs. evictable_frame r g)))"
proof (cases "find (evictable_frame r) (rev hs)")
  case None
  then have "\<not> (\<exists>g \<in> set hs. evictable_frame r g)"
    by (auto simp: find_None_iff)
  moreover have "find (evictable_frame r) (rev cs) = Some f"
    using assms None by (simp add: victim_def)
  then have "evictable_frame r f \<and> f \<in> set cs"
    using find_Some_member [of "evictable_frame r" "rev cs" f] by simp
  ultimately show ?thesis by simp
next
  case (Some g)
  then have "g = f" using assms by (simp add: victim_def)
  then show ?thesis
    using Some find_Some_member [of "evictable_frame r" "rev hs" f] by simp
qed

lemma victim_exists:
  assumes "\<exists>f \<in> set (hs @ cs). evictable_frame r f"
  shows "\<exists>f. victim r hs cs = Some f"
proof (cases "find (evictable_frame r) (rev hs)")
  case None
  then have "\<not> (\<exists>g \<in> set hs. evictable_frame r g)"
    by (auto simp: find_None_iff)
  then have "\<exists>g \<in> set (rev cs). evictable_frame r g"
    using assms by auto
  then have "find (evictable_frame r) (rev cs) \<noteq> None"
    unfolding find_None_iff by blast
  then show ?thesis using None by (auto simp: victim_def)
next
  case (Some g)
  then show ?thesis by (simp add: victim_def)
qed

subsection \<open>The lists under the operations\<close>

lemma path_snoc:
  "link_path nxt x (as @ [a]) y \<longleftrightarrow> link_path nxt x as (Some a) \<and> nxt a = y"
  by (induction as arbitrary: x) auto

lemma path_cong:
  "(\<And>a. a \<in> set as \<Longrightarrow> nxt a = nxt' a) \<Longrightarrow> link_path nxt x as y = link_path nxt' x as y"
  by (induction as arbitrary: x) auto

text \<open>Taking the node \<open>x\<close> out of a path: its predecessor \<open>a\<close> takes over its link.\<close>

lemma path_unlink:
  assumes "link_path nxt s (as @ a # x # bs) t" and "distinct (as @ a # x # bs)"
    and a: "nxt' a = nxt x" and rest: "\<And>p. p \<noteq> a \<Longrightarrow> p \<noteq> x \<Longrightarrow> nxt' p = nxt p"
  shows "link_path nxt' s (as @ a # bs) t"
proof -
  have 1: "link_path nxt s as (Some a)" and 2: "nxt a = Some x" and 3: "link_path nxt (nxt x) bs t"
    using assms(1) by (auto simp: path_append)
  have "link_path nxt' s as (Some a)"
    using 1 assms(2) by (subst path_cong [of as nxt' nxt]) (auto intro: rest)
  moreover have "link_path nxt' (nxt' a) bs t"
    unfolding a using 3 assms(2) by (subst path_cong [of bs nxt' nxt]) (auto intro: rest)
  ultimately show ?thesis
    by (auto simp: path_append)
qed

text \<open>Putting the node \<open>x\<close> into a path, right after \<open>e\<close>.\<close>

lemma path_link:
  assumes "link_path nxt s (as @ e # bs) t" and "distinct (as @ e # bs)" and "x \<notin> set (as @ e # bs)"
    and e: "nxt' e = Some x" and x: "nxt' x = nxt e"
    and rest: "\<And>p. p \<noteq> e \<Longrightarrow> p \<noteq> x \<Longrightarrow> nxt' p = nxt p"
  shows "link_path nxt' s (as @ e # x # bs) t"
proof -
  have 1: "link_path nxt s as (Some e)" and 3: "link_path nxt (nxt e) bs t"
    using assms(1) by (auto simp: path_append)
  have "link_path nxt' s as (Some e)"
    using 1 assms(2,3) by (subst path_cong [of as nxt' nxt]) (auto intro: rest)
  moreover have "link_path nxt' (nxt' x) bs t"
    unfolding x using 3 assms(2,3) by (subst path_cong [of bs nxt' nxt]) (auto intro: rest)
  ultimately show ?thesis
    using e by (auto simp: path_append)
qed

text \<open>The links after \<open>DisLink\<close> and after \<open>MoveToEnd\<close>.\<close>

lemma DisLink_frontptr:
  "frontptr (nodes (DisLink x r) p) =
     (if p = x then None
      else if backptr (nodes r x) = Some p then frontptr (nodes r x)
      else frontptr (nodes r p))"
  by (auto simp: DisLink_def set_frontptr_def set_backptr_def Let_def split: option.splits)

lemma DisLink_backptr:
  "backptr (nodes (DisLink x r) p) =
     (if p = x then None
      else if frontptr (nodes r x) = Some p then backptr (nodes r x)
      else backptr (nodes r p))"
  by (auto simp: DisLink_def set_frontptr_def set_backptr_def Let_def split: option.splits)

lemma MoveToEnd_frontptr:
  "frontptr (nodes (MoveToEnd x e r) p) =
     (if p = x then frontptr (nodes (DisLink x r) e)
      else if p = e then Some x
      else frontptr (nodes (DisLink x r) p))"
  by (auto simp: MoveToEnd_def set_frontptr_def set_backptr_def Let_def split: option.splits)

lemma MoveToEnd_backptr:
  "backptr (nodes (MoveToEnd x e r) p) =
     (if p = x then Some e
      else if frontptr (nodes (DisLink x r) e) = Some p then Some x
      else backptr (nodes (DisLink x r) p))"
  by (auto simp: MoveToEnd_def set_frontptr_def set_backptr_def Let_def split: option.splits)


lemma DisLink_unlinked:
  assumes "frontptr (nodes r x) = None" and "backptr (nodes r x) = None"
  shows "frontptr (nodes (DisLink x r) p) = frontptr (nodes r p)"
    and "backptr (nodes (DisLink x r) p) = backptr (nodes r p)"
  using assms by (auto simp: DisLink_frontptr DisLink_backptr)

lemma DisLink_paths:
  assumes d: "distinct (as @ a # x # c # bs)"
    and f: "link_path (\<lambda>p. frontptr (nodes r p)) s (as @ a # x # c # bs) None"
    and b: "link_path (\<lambda>p. backptr (nodes r p)) t (rev (as @ a # x # c # bs)) None"
  shows "link_path (\<lambda>p. frontptr (nodes (DisLink x r) p)) s (as @ a # c # bs) None"
    and "link_path (\<lambda>p. backptr (nodes (DisLink x r) p)) t (rev (as @ a # c # bs)) None"
proof -
  have fx: "frontptr (nodes r x) = Some c"
    using f by (auto simp: path_append)
  have b': "link_path (\<lambda>p. backptr (nodes r p)) t (rev bs @ c # x # a # rev as) None"
    using b by simp
  then have bx: "backptr (nodes r x) = Some a"
    by (auto simp: path_append)
  show "link_path (\<lambda>p. frontptr (nodes (DisLink x r) p)) s (as @ a # c # bs) None"
    using f d
    by (rule path_unlink) (use d in \<open>auto simp: DisLink_frontptr bx fx\<close>)
  have "link_path (\<lambda>p. backptr (nodes (DisLink x r) p)) t (rev bs @ c # a # rev as) None"
    using b'
    by (rule path_unlink) (use d in \<open>auto simp: DisLink_backptr bx fx\<close>)
  then show "link_path (\<lambda>p. backptr (nodes (DisLink x r) p)) t (rev (as @ a # c # bs)) None"
    by simp
qed

lemma MoveToEnd_paths:
  assumes d: "distinct (as @ e # c # bs)" and x: "x \<notin> set (as @ e # c # bs)"
    and f: "link_path (\<lambda>p. frontptr (nodes (DisLink x r) p)) s (as @ e # c # bs) None"
    and b: "link_path (\<lambda>p. backptr (nodes (DisLink x r) p)) t (rev (as @ e # c # bs)) None"
  shows "link_path (\<lambda>p. frontptr (nodes (MoveToEnd x e r) p)) s (as @ e # x # c # bs) None"
    and "link_path (\<lambda>p. backptr (nodes (MoveToEnd x e r) p)) t (rev (as @ e # x # c # bs)) None"
proof -
  have fe: "frontptr (nodes (DisLink x r) e) = Some c"
    using f by (auto simp: path_append)
  have b': "link_path (\<lambda>p. backptr (nodes (DisLink x r) p)) t (rev bs @ c # e # rev as) None"
    using b by simp
  then have bc: "backptr (nodes (DisLink x r) c) = Some e"
    by (auto simp: path_append)
  show "link_path (\<lambda>p. frontptr (nodes (MoveToEnd x e r) p)) s (as @ e # x # c # bs) None"
    using f d x
    by (rule path_link) (use x in \<open>auto simp: MoveToEnd_frontptr\<close>)
  have "link_path (\<lambda>p. backptr (nodes (MoveToEnd x e r) p)) t (rev bs @ c # x # e # rev as) None"
    using b'
    by (rule path_link) (use d x in \<open>auto simp: MoveToEnd_backptr fe bc\<close>)
  then show "link_path (\<lambda>p. backptr (nodes (MoveToEnd x e r) p)) t (rev (as @ e # x # c # bs)) None"
    by simp
qed

lemma DisLink_paths_split:
  assumes d: "distinct (pre @ x # post)" and "pre \<noteq> []" and "post \<noteq> []"
    and f: "link_path (\<lambda>p. frontptr (nodes r p)) s (pre @ x # post) None"
    and b: "link_path (\<lambda>p. backptr (nodes r p)) t (rev (pre @ x # post)) None"
  shows "link_path (\<lambda>p. frontptr (nodes (DisLink x r) p)) s (pre @ post) None"
    and "link_path (\<lambda>p. backptr (nodes (DisLink x r) p)) t (rev (pre @ post)) None"
proof -
  obtain as a where pre: "pre = as @ [a]"
    using \<open>pre \<noteq> []\<close> by (metis append_butlast_last_id)
  obtain c bs where post: "post = c # bs"
    using \<open>post \<noteq> []\<close> by (cases post) auto
  have d': "distinct (as @ a # x # c # bs)" using d by (simp add: pre post)
  have f': "link_path (\<lambda>p. frontptr (nodes r p)) s (as @ a # x # c # bs) None"
    using f by (simp add: pre post)
  have b': "link_path (\<lambda>p. backptr (nodes r p)) t (rev (as @ a # x # c # bs)) None"
    using b by (simp add: pre post)
  show "link_path (\<lambda>p. frontptr (nodes (DisLink x r) p)) s (pre @ post) None"
    using DisLink_paths(1) [OF d' f' b'] by (simp add: pre post)
  show "link_path (\<lambda>p. backptr (nodes (DisLink x r) p)) t (rev (pre @ post)) None"
    using DisLink_paths(2) [OF d' f' b'] by (simp add: pre post)
qed

lemma MoveToEnd_paths_split:
  assumes d: "distinct (pre @ e # post)" and "post \<noteq> []" and x: "x \<notin> set (pre @ e # post)"
    and f: "link_path (\<lambda>p. frontptr (nodes (DisLink x r) p)) s (pre @ e # post) None"
    and b: "link_path (\<lambda>p. backptr (nodes (DisLink x r) p)) t (rev (pre @ e # post)) None"
  shows "link_path (\<lambda>p. frontptr (nodes (MoveToEnd x e r) p)) s (pre @ e # x # post) None"
    and "link_path (\<lambda>p. backptr (nodes (MoveToEnd x e r) p)) t (rev (pre @ e # x # post)) None"
proof -
  obtain c bs where post: "post = c # bs"
    using \<open>post \<noteq> []\<close> by (cases post) auto
  have d': "distinct (pre @ e # c # bs)" using d by (simp add: post)
  have x': "x \<notin> set (pre @ e # c # bs)" using x by (simp add: post)
  have f': "link_path (\<lambda>p. frontptr (nodes (DisLink x r) p)) s (pre @ e # c # bs) None"
    using f by (simp add: post)
  have b': "link_path (\<lambda>p. backptr (nodes (DisLink x r) p)) t (rev (pre @ e # c # bs)) None"
    using b by (simp add: post)
  show "link_path (\<lambda>p. frontptr (nodes (MoveToEnd x e r) p)) s (pre @ e # x # post) None"
    using MoveToEnd_paths(1) [OF d' x' f' b'] by (simp add: post)
  show "link_path (\<lambda>p. backptr (nodes (MoveToEnd x e r) p)) t (rev (pre @ e # x # post)) None"
    using MoveToEnd_paths(2) [OF d' x' f' b'] by (simp add: post)
qed

text \<open>The chain with a frame taken out.\<close>

lemma chain_distinct: "distinct (chain hs cs) \<longleftrightarrow> distinct (hs @ cs)"
  by (auto simp: chain_def distinct_map inj_on_def)

lemma chain_split:
  assumes "f \<in> set (hs @ cs)" and "distinct (hs @ cs)"
  shows "\<exists>pre post. chain hs cs = pre @ Node f # post \<and> pre \<noteq> [] \<and> post \<noteq> [] \<and>
           chain (remove1 f hs) (remove1 f cs) = pre @ post"
proof (cases "f \<in> set hs")
  case True
  then obtain h1 h2 where hs: "hs = h1 @ f # h2" and n: "f \<notin> set h1"
    by (meson split_list_first)
  have fc: "f \<notin> set cs" using assms(2) True by auto
  have r: "remove1 f (h1 @ f # h2) = h1 @ h2" using n by (simp add: remove1_append)
  show ?thesis
    by (rule exI [of _ "HistoryEnd # map Node h1"],
        rule exI [of _ "map Node h2 @ MiddleSeparator # map Node cs @ [BufferStart]"])
       (simp add: chain_def hs r remove1_idem [OF fc])
next
  case False
  then have "f \<in> set cs" using assms(1) by auto
  then obtain c1 c2 where cs: "cs = c1 @ f # c2" and n: "f \<notin> set c1"
    by (meson split_list_first)
  have r: "remove1 f (c1 @ f # c2) = c1 @ c2" using n by (simp add: remove1_append)
  show ?thesis
    by (rule exI [of _ "HistoryEnd # map Node hs @ MiddleSeparator # map Node c1"],
        rule exI [of _ "map Node c2 @ [BufferStart]"])
       (simp add: chain_def cs r remove1_idem [OF False])
qed

lemma lists_of_DisLink:
  assumes l: "lists_of r hs cs" and f: "f \<in> set (hs @ cs)"
  shows "lists_of (DisLink (Node f) r) (remove1 f hs) (remove1 f cs)"
proof -
  have d: "distinct (hs @ cs)" using l by (simp add: lists_of_def)
  obtain pre post where c: "chain hs cs = pre @ Node f # post" and ne: "pre \<noteq> []" "post \<noteq> []"
    and c': "chain (remove1 f hs) (remove1 f cs) = pre @ post"
    using chain_split [OF f d] by blast
  have dc: "distinct (pre @ Node f # post)"
    using d chain_distinct [of hs cs] by (simp add: c)
  have fp: "link_path (\<lambda>p. frontptr (nodes r p)) (Some HistoryEnd) (pre @ Node f # post) None"
    and bp: "link_path (\<lambda>p. backptr (nodes r p)) (Some BufferStart) (rev (pre @ Node f # post)) None"
    using l by (simp_all add: lists_of_def c)
  have "distinct (remove1 f hs @ remove1 f cs)"
    using d by (auto dest: notin_set_remove1)
  moreover have "list_all (\<lambda>g. node_store (DisLink (Node f) r) g = Some (Node g) \<and>
                    node_frame_id (nodes (DisLink (Node f) r) (Node g)) = g)
                   (remove1 f hs @ remove1 f cs)"
    using l by (auto simp: lists_of_def list_all_iff dest: notin_set_remove1)
  ultimately show ?thesis
    unfolding lists_of_def c'
    using DisLink_paths_split [OF dc ne fp bp] by simp
qed


lemma path_closed:
  "link_path nxt x as None \<Longrightarrow> a \<in> set as \<Longrightarrow> nxt a = Some q \<Longrightarrow> q \<in> set as"
proof (induction as arbitrary: x)
  case Nil
  then show ?case by simp
next
  case (Cons b as)
  then show ?case by (cases as) auto
qed

lemma lists_of_closed:
  assumes "lists_of r hs cs" and "p \<in> set (chain hs cs)"
  shows "frontptr (nodes r p) = Some q \<Longrightarrow> q \<in> set (chain hs cs)"
    and "backptr (nodes r p) = Some q \<Longrightarrow> q \<in> set (chain hs cs)"
proof -
  have f: "link_path (\<lambda>p. frontptr (nodes r p)) (Some HistoryEnd) (chain hs cs) None"
    and b: "link_path (\<lambda>p. backptr (nodes r p)) (Some BufferStart) (rev (chain hs cs)) None"
    using assms(1) by (simp_all add: lists_of_def)
  show "frontptr (nodes r p) = Some q \<Longrightarrow> q \<in> set (chain hs cs)"
    using path_closed [OF f assms(2)] by simp
  show "backptr (nodes r p) = Some q \<Longrightarrow> q \<in> set (chain hs cs)"
    using path_closed [OF b, of p q] assms(2) by simp
qed

lemma Node_in_chain [simp]: "Node f \<in> set (chain hs cs) \<longleftrightarrow> f \<in> set (hs @ cs)"
  by (auto simp: chain_def)

lemma lists_of_cong:
  assumes "lists_of r hs cs"
    and "\<And>p. p \<in> set (chain hs cs) \<Longrightarrow> frontptr (nodes r' p) = frontptr (nodes r p)"
    and "\<And>p. p \<in> set (chain hs cs) \<Longrightarrow> backptr (nodes r' p) = backptr (nodes r p)"
    and "\<And>f. f \<in> set (hs @ cs) \<Longrightarrow> node_store r' f = node_store r f"
    and "\<And>f. f \<in> set (hs @ cs) \<Longrightarrow>
           node_frame_id (nodes r' (Node f)) = node_frame_id (nodes r (Node f))"
  shows "lists_of r' hs cs"
proof -
  have "link_path (\<lambda>p. frontptr (nodes r' p)) (Some HistoryEnd) (chain hs cs) None
          = link_path (\<lambda>p. frontptr (nodes r p)) (Some HistoryEnd) (chain hs cs) None"
    by (rule path_cong) (simp add: assms(2))
  moreover have "link_path (\<lambda>p. backptr (nodes r' p)) (Some BufferStart) (rev (chain hs cs)) None
          = link_path (\<lambda>p. backptr (nodes r p)) (Some BufferStart) (rev (chain hs cs)) None"
    by (rule path_cong) (simp add: assms(3))
  moreover have "list_all (\<lambda>f. node_store r' f = Some (Node f) \<and> node_frame_id (nodes r' (Node f)) = f)
                   (hs @ cs)"
    using assms(1,4,5) unfolding lists_of_def list_all_iff by auto
  ultimately show ?thesis
    using assms(1) by (simp add: lists_of_def)
qed

lemma lists_of_MoveToEnd:
  assumes l: "lists_of (DisLink (Node f) r) hs cs" and nf: "f \<notin> set (hs @ cs)"
    and ns: "node_store r f = Some (Node f)" "node_frame_id (nodes r (Node f)) = f"
  shows "lists_of (MoveToEnd (Node f) HistoryEnd r) (f # hs) cs"
    and "lists_of (MoveToEnd (Node f) MiddleSeparator r) hs (f # cs)"
proof -
  let ?r0 = "DisLink (Node f) r"
  have d: "distinct (hs @ cs)" using l by (simp add: lists_of_def)
  have dc: "distinct (chain hs cs)" using d by (simp add: chain_distinct)
  have fp: "link_path (\<lambda>p. frontptr (nodes ?r0 p)) (Some HistoryEnd) (chain hs cs) None"
    and bp: "link_path (\<lambda>p. backptr (nodes ?r0 p)) (Some BufferStart) (rev (chain hs cs)) None"
    and la: "list_all (\<lambda>g. node_store r g = Some (Node g) \<and> node_frame_id (nodes r (Node g)) = g)
               (hs @ cs)"
    using l by (simp_all add: lists_of_def)
  have x: "Node f \<notin> set (chain hs cs)" using nf by simp
  have c1: "chain hs cs = [] @ HistoryEnd # (map Node hs @ MiddleSeparator # map Node cs @ [BufferStart])"
    by (simp add: chain_def)
  have c1': "chain (f # hs) cs
      = [] @ HistoryEnd # Node f # (map Node hs @ MiddleSeparator # map Node cs @ [BufferStart])"
    by (simp add: chain_def)
  have c2: "chain hs cs = (HistoryEnd # map Node hs) @ MiddleSeparator # (map Node cs @ [BufferStart])"
    by (simp add: chain_def)
  have c2': "chain hs (f # cs)
      = (HistoryEnd # map Node hs) @ MiddleSeparator # Node f # (map Node cs @ [BufferStart])"
    by (simp add: chain_def)
  have la1: "list_all (\<lambda>g. node_store (MoveToEnd (Node f) e r) g = Some (Node g) \<and>
                   node_frame_id (nodes (MoveToEnd (Node f) e r) (Node g)) = g) (f # hs @ cs)" for e
    using la ns by simp
  have la2: "list_all (\<lambda>g. node_store (MoveToEnd (Node f) e r) g = Some (Node g) \<and>
                   node_frame_id (nodes (MoveToEnd (Node f) e r) (Node g)) = g) (hs @ f # cs)" for e
    using la ns by simp
  show "lists_of (MoveToEnd (Node f) HistoryEnd r) (f # hs) cs"
    unfolding lists_of_def c1'
    using MoveToEnd_paths_split [of "[]" HistoryEnd _ "Node f" r, OF dc [unfolded c1] _ x [unfolded c1]
        fp [unfolded c1] bp [unfolded c1]] d nf la1
    by simp
  show "lists_of (MoveToEnd (Node f) MiddleSeparator r) hs (f # cs)"
    unfolding lists_of_def c2'
    using MoveToEnd_paths_split [of "HistoryEnd # map Node hs" MiddleSeparator _ "Node f" r,
        OF dc [unfolded c2] _ x [unfolded c2] fp [unfolded c2] bp [unfolded c2]] d nf la2
    by simp
qed


lemma replacer_invD:
  assumes "replacer_inv r hs cs"
  shows "lists_of r hs cs"
    and "node_store r f = Some p \<Longrightarrow> p = Node f"
    and "node_store r f = Some p \<Longrightarrow> node_frame_id (nodes r (Node f)) = f"
    and "node_store r f = Some p \<Longrightarrow> f \<notin> set (hs @ cs) \<Longrightarrow>
           frontptr (nodes r (Node f)) = None \<and> backptr (nodes r (Node f)) = None"
  using assms unfolding replacer_inv_def by blast+

lemma replacer_invI:
  assumes "lists_of r hs cs"
    and "\<And>f p. node_store r f = Some p \<Longrightarrow> p = Node f \<and> node_frame_id (nodes r (Node f)) = f"
    and "\<And>f. node_store r f = Some (Node f) \<Longrightarrow> f \<notin> set (hs @ cs) \<Longrightarrow>
           frontptr (nodes r (Node f)) = None \<and> backptr (nodes r (Node f)) = None"
  shows "replacer_inv r hs cs"
  unfolding replacer_inv_def using assms by blast

lemma remove1_notin: "distinct xs \<Longrightarrow> f \<notin> set (remove1 f xs)"
  by simp

lemma replacer_inv_DisLink:
  assumes inv: "replacer_inv r hs cs" and ns: "node_store r f = Some (Node f)"
  shows "replacer_inv (DisLink (Node f) r) (remove1 f hs) (remove1 f cs)"
proof (rule replacer_invI)
  note l = replacer_invD(1) [OF inv]
  have d: "distinct (hs @ cs)" using l by (simp add: lists_of_def)
  show "lists_of (DisLink (Node f) r) (remove1 f hs) (remove1 f cs)"
  proof (cases "f \<in> set (hs @ cs)")
    case True
    then show ?thesis by (rule lists_of_DisLink [OF l])
  next
    case False
    then have n: "frontptr (nodes r (Node f)) = None" "backptr (nodes r (Node f)) = None"
      using replacer_invD(4) [OF inv ns] by simp_all
    have "lists_of (DisLink (Node f) r) hs cs"
      using l by (rule lists_of_cong) (simp_all add: DisLink_unlinked [OF n])
    then show ?thesis
      using False by (simp add: remove1_idem)
  qed
  show "p = Node g \<and> node_frame_id (nodes (DisLink (Node f) r) (Node g)) = g"
    if "node_store (DisLink (Node f) r) g = Some p" for g p
    using that replacer_invD(2,3) [OF inv, of g p] by simp
  show "frontptr (nodes (DisLink (Node f) r) (Node g)) = None \<and>
        backptr (nodes (DisLink (Node f) r) (Node g)) = None"
    if t: "node_store (DisLink (Node f) r) g = Some (Node g)"
      and n: "g \<notin> set (remove1 f hs @ remove1 f cs)" for g
  proof (cases "g = f")
    case True
    then show ?thesis by (simp add: DisLink_frontptr DisLink_backptr)
  next
    case False
    then have g: "g \<notin> set (hs @ cs)" using n by auto
    have t': "node_store r g = Some (Node g)" using t by simp
    have gn: "frontptr (nodes r (Node g)) = None" "backptr (nodes r (Node g)) = None"
      using replacer_invD(4) [OF inv t' g] by simp_all
    have nb: "backptr (nodes r (Node f)) \<noteq> Some (Node g)"
    proof (cases "f \<in> set (hs @ cs)")
      case True
      then show ?thesis
        using lists_of_closed(2) [OF l, of "Node f" "Node g"] g by auto
    next
      case False
      then show ?thesis using replacer_invD(4) [OF inv ns] by simp
    qed
    have nf: "frontptr (nodes r (Node f)) \<noteq> Some (Node g)"
    proof (cases "f \<in> set (hs @ cs)")
      case True
      then show ?thesis
        using lists_of_closed(1) [OF l, of "Node f" "Node g"] g by auto
    next
      case False
      then show ?thesis using replacer_invD(4) [OF inv ns] by simp
    qed
    show ?thesis
      using False gn nb nf by (simp add: DisLink_frontptr DisLink_backptr)
  qed
qed

lemma replacer_inv_MoveToEnd:
  assumes inv: "replacer_inv r hs cs" and ns: "node_store r f = Some (Node f)"
  shows "replacer_inv (MoveToEnd (Node f) HistoryEnd r) (f # remove1 f hs) (remove1 f cs)"
    and "replacer_inv (MoveToEnd (Node f) MiddleSeparator r) (remove1 f hs) (f # remove1 f cs)"
proof -
  let ?hs = "remove1 f hs" and ?cs = "remove1 f cs"
  let ?r0 = "DisLink (Node f) r"
  note inv0 = replacer_inv_DisLink [OF inv ns]
  note l0 = replacer_invD(1) [OF inv0]
  have d: "distinct (hs @ cs)" using replacer_invD(1) [OF inv] by (simp add: lists_of_def)
  have nf: "f \<notin> set (?hs @ ?cs)" using d by auto
  note id = replacer_invD(3) [OF inv ns]
  have others: "frontptr (nodes (MoveToEnd (Node f) e r) (Node g)) = None \<and>
        backptr (nodes (MoveToEnd (Node f) e r) (Node g)) = None"
    if t: "node_store r g = Some (Node g)" and n: "g \<notin> set (?hs @ ?cs)" and gf: "g \<noteq> f"
      and e: "e = HistoryEnd \<or> e = MiddleSeparator" for g e
  proof -
    have t0: "node_store ?r0 g = Some (Node g)" using t by simp
    have gn: "frontptr (nodes ?r0 (Node g)) = None" "backptr (nodes ?r0 (Node g)) = None"
      using replacer_invD(4) [OF inv0 t0 n] by simp_all
    have ec: "e \<in> set (chain ?hs ?cs)" using e by (auto simp: chain_def)
    have "frontptr (nodes ?r0 e) \<noteq> Some (Node g)"
      using lists_of_closed(1) [OF l0 ec, of "Node g"] n by auto
    then show ?thesis
      using gn gf e by (auto simp: MoveToEnd_frontptr MoveToEnd_backptr)
  qed
  show "replacer_inv (MoveToEnd (Node f) HistoryEnd r) (f # ?hs) ?cs"
  proof (rule replacer_invI)
    show "lists_of (MoveToEnd (Node f) HistoryEnd r) (f # ?hs) ?cs"
      by (rule lists_of_MoveToEnd(1) [OF l0 nf ns id])
    show "p = Node g \<and> node_frame_id (nodes (MoveToEnd (Node f) HistoryEnd r) (Node g)) = g"
      if "node_store (MoveToEnd (Node f) HistoryEnd r) g = Some p" for g p
      using that replacer_invD(2,3) [OF inv, of g p] by simp
    show "frontptr (nodes (MoveToEnd (Node f) HistoryEnd r) (Node g)) = None \<and>
          backptr (nodes (MoveToEnd (Node f) HistoryEnd r) (Node g)) = None"
      if "node_store (MoveToEnd (Node f) HistoryEnd r) g = Some (Node g)"
        and "g \<notin> set ((f # ?hs) @ ?cs)" for g
      using that by (intro others) auto
  qed
  show "replacer_inv (MoveToEnd (Node f) MiddleSeparator r) ?hs (f # ?cs)"
  proof (rule replacer_invI)
    show "lists_of (MoveToEnd (Node f) MiddleSeparator r) ?hs (f # ?cs)"
      by (rule lists_of_MoveToEnd(2) [OF l0 nf ns id])
    show "p = Node g \<and> node_frame_id (nodes (MoveToEnd (Node f) MiddleSeparator r) (Node g)) = g"
      if "node_store (MoveToEnd (Node f) MiddleSeparator r) g = Some p" for g p
      using that replacer_invD(2,3) [OF inv, of g p] by simp
    show "frontptr (nodes (MoveToEnd (Node f) MiddleSeparator r) (Node g)) = None \<and>
          backptr (nodes (MoveToEnd (Node f) MiddleSeparator r) (Node g)) = None"
      if "node_store (MoveToEnd (Node f) MiddleSeparator r) g = Some (Node g)"
        and "g \<notin> set (?hs @ f # ?cs)" for g
      using that by (intro others) auto
  qed
qed

lemma replacer_inv_same_links:
  assumes "replacer_inv r hs cs" and "node_store r' = node_store r"
    and "\<And>p. frontptr (nodes r' p) = frontptr (nodes r p)"
    and "\<And>p. backptr (nodes r' p) = backptr (nodes r p)"
    and "\<And>p. node_frame_id (nodes r' p) = node_frame_id (nodes r p)"
  shows "replacer_inv r' hs cs"
proof (rule replacer_invI)
  show "lists_of r' hs cs"
    using replacer_invD(1) [OF assms(1)] by (rule lists_of_cong) (simp_all add: assms(2-5))
  show "p = Node f \<and> node_frame_id (nodes r' (Node f)) = f" if "node_store r' f = Some p" for f p
    using that replacer_invD(2,3) [OF assms(1), of f p] by (simp add: assms(2-5))
  show "frontptr (nodes r' (Node f)) = None \<and> backptr (nodes r' (Node f)) = None"
    if "node_store r' f = Some (Node f)" and "f \<notin> set (hs @ cs)" for f
    using that replacer_invD(4) [OF assms(1), of f "Node f"] by (simp add: assms(2-5))
qed

lemma node_store_fold:
  "fold (\<lambda>i ns. ns(int i \<mapsto> Node (int i))) [0..<n] m f =
     (if 0 \<le> f \<and> f < int n then Some (Node f) else m f)"
proof (induction n)
  case 0
  then show ?case by auto
next
  case (Suc n)
  show ?case
  proof (cases "f = int n")
    case True
    then show ?thesis by simp
  next
    case False
    then show ?thesis using Suc by auto
  qed
qed

lemma node_store_new:
  "node_store (LRUKReplacer_new n kk) f = (if 0 \<le> f \<and> f < int n then Some (Node f) else None)"
  by (simp add: LRUKReplacer_new_def node_store_fold)

lemma LRUKReplacer_new_inv: "replacer_inv (LRUKReplacer_new n kk) [] []"
proof (rule replacer_invI)
  show "lists_of (LRUKReplacer_new n kk) [] []"
    by (simp add: lists_of_def chain_def LRUKReplacer_new_def new_LRUKNode_def)
  show "p = Node f \<and> node_frame_id (nodes (LRUKReplacer_new n kk) (Node f)) = f"
    if "node_store (LRUKReplacer_new n kk) f = Some p" for f p
    using that by (auto simp: node_store_new split: if_splits)
      (simp add: LRUKReplacer_new_def new_LRUKNode_def)
  show "frontptr (nodes (LRUKReplacer_new n kk) (Node f)) = None \<and>
        backptr (nodes (LRUKReplacer_new n kk) (Node f)) = None" for f
    by (simp add: LRUKReplacer_new_def new_LRUKNode_def)
qed

lemma SetEvictable_inv:
  assumes "replacer_inv r hs cs"
  shows "replacer_inv (SetEvictable r f b) hs cs"
  using assms
  by (rule replacer_inv_same_links) (auto simp: SetEvictable_def split: option.splits)

lemma node_RecordAccess_links [simp]:
  "frontptr (snd (node_RecordAccess ts n)) = frontptr n"
  "backptr (snd (node_RecordAccess ts n)) = backptr n"
  "node_frame_id (snd (node_RecordAccess ts n)) = node_frame_id n"
  "is_evictable (snd (node_RecordAccess ts n)) = is_evictable n"
  by (simp_all add: node_RecordAccess_def Let_def)

lemma RecordAccess_inv:
  assumes inv: "replacer_inv r hs cs" and ra: "RecordAccess r f = Inr r'"
  shows "replacer_inv r'
           (if goes_to_history r f then f # remove1 f hs else remove1 f hs)
           (if goes_to_history r f then remove1 f cs else f # remove1 f cs)"
proof (cases "node_store r f")
  case None
  let ?r2 = "r\<lparr>current_timestamp := current_timestamp r + 1,
               node_store := (node_store r)(f \<mapsto> Node f),
               nodes := (nodes r)(Node f :=
                  snd (node_RecordAccess (current_timestamp r + 1) (new_LRUKNode f (replacer_k r))))\<rparr>"
  have r': "r' = MoveToEnd (Node f) HistoryEnd ?r2"
    using ra None by (simp add: RecordAccess_def Let_def split: if_splits)
  have nf: "f \<notin> set (hs @ cs)"
    using replacer_invD(1) [OF inv] None by (auto simp: lists_of_def list_all_iff)
  have inv2: "replacer_inv ?r2 hs cs"
  proof (rule replacer_invI)
    show "lists_of ?r2 hs cs"
      using replacer_invD(1) [OF inv] by (rule lists_of_cong) (use nf in auto)
    show "p = Node g \<and> node_frame_id (nodes ?r2 (Node g)) = g" if "node_store ?r2 g = Some p" for g p
      using that replacer_invD(2,3) [OF inv, of g p]
      by (cases "g = f") (simp_all add: new_LRUKNode_def)
    show "frontptr (nodes ?r2 (Node g)) = None \<and> backptr (nodes ?r2 (Node g)) = None"
      if "node_store ?r2 g = Some (Node g)" and "g \<notin> set (hs @ cs)" for g
      using that replacer_invD(4) [OF inv, of g "Node g"]
      by (cases "g = f") (simp_all add: new_LRUKNode_def)
  qed
  have "replacer_inv r' (f # remove1 f hs) (remove1 f cs)"
    unfolding r' by (rule replacer_inv_MoveToEnd(1) [OF inv2]) simp
  then show ?thesis
    using None by (simp add: goes_to_history_def)
next
  case (Some p)
  then have p: "p = Node f" using replacer_invD(2) [OF inv] by simp
  obtain dropped n where na: "node_RecordAccess (current_timestamp r + 1) (nodes r (Node f)) = (dropped, n)"
    by (cases "node_RecordAccess (current_timestamp r + 1) (nodes r (Node f))")
  have n: "n = snd (node_RecordAccess (current_timestamp r + 1) (nodes r (Node f)))"
    using na by simp
  let ?r1 = "r\<lparr>current_timestamp := current_timestamp r + 1, nodes := (nodes r)(Node f := n)\<rparr>"
  have inv1: "replacer_inv ?r1 hs cs"
    using inv by (rule replacer_inv_same_links) (simp_all add: n)
  have ns1: "node_store ?r1 f = Some (Node f)" using Some p by simp
  have r': "r' = (if dropped then MoveToEnd (Node f) MiddleSeparator ?r1
                  else if GetSize n < replacer_k r then MoveToEnd (Node f) HistoryEnd ?r1
                  else MoveToEnd (Node f) MiddleSeparator ?r1)"
    using ra Some p na by (simp add: RecordAccess_def Let_def split: if_splits)
  have g: "goes_to_history r f \<longleftrightarrow> \<not> dropped \<and> GetSize n < replacer_k r"
    using Some p na by (simp add: goes_to_history_def)
  show ?thesis
    using replacer_inv_MoveToEnd [OF inv1 ns1] by (auto simp: r' g)
qed

lemma Evict_take_inv:
  assumes inv: "replacer_inv r hs cs" and ns: "node_store r f = Some (Node f)"
  shows "replacer_inv (snd (Evict_take r (Node f))) (remove1 f hs) (remove1 f cs)"
  using replacer_inv_DisLink [OF inv ns]
  by (rule replacer_inv_same_links) (simp_all add: Evict_take_def Let_def CleanHistory_def)

lemma Evict_inv:
  assumes inv: "replacer_inv r hs cs" and ev: "Evict r = Some (Inr (x, r'))"
  shows "case x of None \<Rightarrow> r' = r
         | Some f \<Rightarrow> replacer_inv r' (remove1 f hs) (remove1 f cs)"
proof (cases "curr_size r = 0")
  case True
  then show ?thesis using ev by (simp add: Evict_def)
next
  case False
  note l = replacer_invD(1) [OF inv]
  show ?thesis
  proof (cases "victim r hs cs")
    case None
    then show ?thesis using ev Evict_victim_take [OF l False] by simp
  next
    case (Some f)
    then have "f \<in> set (hs @ cs)" using victim_cases [OF Some] by auto
    then have ns: "node_store r f = Some (Node f)" and id: "node_frame_id (nodes r (Node f)) = f"
      using l by (auto simp: lists_of_def list_all_iff)
    have "Evict_take r (Node f) = (Some f, snd (Evict_take r (Node f)))"
      by (simp add: Evict_take_def Let_def id)
    then have "Evict r = Some (Inr (Some f, snd (Evict_take r (Node f))))"
      using Evict_victim_take [OF l False] Some by simp
    then have "x = Some f" and "r' = snd (Evict_take r (Node f))"
      using ev by simp_all
    then show ?thesis
      using Evict_take_inv [OF inv ns] by simp
  qed
qed

lemma Remove_frame_inv:
  assumes inv: "replacer_inv r hs cs" and rm: "Remove_frame r f = Inr r'"
  shows "replacer_inv r' (remove1 f hs) (remove1 f cs)"
proof (cases "node_store r f")
  case None
  then have "f \<notin> set (hs @ cs)"
    using replacer_invD(1) [OF inv] by (auto simp: lists_of_def list_all_iff)
  then show ?thesis
    using rm None inv by (simp add: Remove_frame_def remove1_idem)
next
  case (Some p)
  then have p: "p = Node f" using replacer_invD(2) [OF inv] by simp
  then have ns: "node_store r f = Some (Node f)" using Some by simp
  let ?r1 = "DisLink (Node f) r"
  have r': "r' = ?r1\<lparr>node_store := (node_store ?r1)(f := None), curr_size := curr_size ?r1 - 1\<rparr>"
    using rm Some p by (simp add: Remove_frame_def Let_def split: if_splits)
  note inv1 = replacer_inv_DisLink [OF inv ns]
  have d: "distinct (hs @ cs)" using replacer_invD(1) [OF inv] by (simp add: lists_of_def)
  have nf: "f \<notin> set (remove1 f hs @ remove1 f cs)" using d by auto
  show ?thesis
    unfolding r'
  proof (rule replacer_invI)
    show "lists_of (?r1\<lparr>node_store := (node_store ?r1)(f := None), curr_size := curr_size ?r1 - 1\<rparr>)
            (remove1 f hs) (remove1 f cs)"
      using replacer_invD(1) [OF inv1] by (rule lists_of_cong) (use nf in auto)
    show "p = Node g \<and>
          node_frame_id (nodes (?r1\<lparr>node_store := (node_store ?r1)(f := None),
                                    curr_size := curr_size ?r1 - 1\<rparr>) (Node g)) = g"
      if "node_store (?r1\<lparr>node_store := (node_store ?r1)(f := None),
                          curr_size := curr_size ?r1 - 1\<rparr>) g = Some p" for g p
      using that replacer_invD(2,3) [OF inv, of g p] by (cases "g = f") simp_all
    show "frontptr (nodes (?r1\<lparr>node_store := (node_store ?r1)(f := None),
                                curr_size := curr_size ?r1 - 1\<rparr>) (Node g)) = None \<and>
          backptr (nodes (?r1\<lparr>node_store := (node_store ?r1)(f := None),
                               curr_size := curr_size ?r1 - 1\<rparr>) (Node g)) = None"
      if "node_store (?r1\<lparr>node_store := (node_store ?r1)(f := None),
                          curr_size := curr_size ?r1 - 1\<rparr>) g = Some (Node g)"
        and "g \<notin> set (remove1 f hs @ remove1 f cs)" for g
      using that replacer_invD(4) [OF inv1, of g "Node g"] by (cases "g = f") simp_all
  qed
qed

subsection \<open>A frame that comes back after \<open>Remove\<close>: the claim\<close>

lemma tracked_example_inv: "replacer_inv tracked_example [0] []"
proof -
  obtain r where r: "RecordAccess (LRUKReplacer_new 2 2) 0 = Inr r"
    by (simp add: RecordAccess_def Let_def size_t_of_def LRUKReplacer_new_def upt_rec
        node_RecordAccess_def new_LRUKNode_def GetSize_def)
  have "nodes (LRUKReplacer_new 2 2) (Node 0) = new_LRUKNode 0 2"
    "current_timestamp (LRUKReplacer_new 2 2) = 0" "replacer_k (LRUKReplacer_new 2 2) = 2"
    by (simp_all add: LRUKReplacer_new_def)
  then have g: "goes_to_history (LRUKReplacer_new 2 2) 0"
    by (simp add: goes_to_history_def node_store_new node_RecordAccess_def GetSize_def
        new_LRUKNode_def)
  have "replacer_inv r [0] []"
    using RecordAccess_inv [OF LRUKReplacer_new_inv r] g by simp
  then have "replacer_inv (SetEvictable r 0 True) [0] []"
    by (rule SetEvictable_inv)
  then show ?thesis
    using r by (simp add: tracked_example_def)
qed

text \<open>
  Claim C10. For every frame \<open>f\<close> below \<open>num_frames\<close> that \<open>Remove(f)\<close> has left untracked
  (in a replacer with \<open>K\<close> at least 1), a following \<open>RecordAccess(f)\<close> creates the node of
  \<open>f\<close> again: \<open>f\<close> is tracked, its history holds exactly one timestamp, the new one, the node
  is not evictable, and it is at the recent end of the history list: it is linked right
  after \<open>history_end\<close>, and where the lists were \<open>hs\<close> and \<open>cs\<close> before the \<open>Remove\<close>, the
  history list is now \<open>f\<close> followed by the rest of \<open>hs\<close>.
\<close>

theorem RecordAccess_after_Remove:
  assumes "Remove_frame r0 f = Inr r" and "0 \<le> f" and "f < int (replacer_size r0)"
    and "0 < replacer_k r0"
  shows "\<exists>r'. RecordAccess r f = Inr r' \<and>
           node_store r' f = Some (Node f) \<and>
           history (nodes r' (Node f)) = [current_timestamp r0 + 1] \<and>
           \<not> is_evictable (nodes r' (Node f)) \<and>
           frontptr (nodes r' HistoryEnd) = Some (Node f) \<and>
           backptr (nodes r' (Node f)) = Some HistoryEnd \<and>
           (\<forall>hs cs. replacer_inv r0 hs cs \<longrightarrow>
              replacer_inv r' (f # remove1 f hs) (remove1 f cs))"
proof -
  note u = Remove_frame_untracks [OF assms(1)]
  obtain r' where ra: "RecordAccess r f = Inr r'"
    and facts: "node_store r' f = Some (Node f)"
      "history (nodes r' (Node f)) = [current_timestamp r0 + 1]"
      "\<not> is_evictable (nodes r' (Node f))"
      "frontptr (nodes r' HistoryEnd) = Some (Node f)"
      "backptr (nodes r' (Node f)) = Some HistoryEnd"
    using RecordAccess_untracked [of r f] u assms(2-4) by auto
  have "replacer_inv r' (f # remove1 f hs) (remove1 f cs)" if inv: "replacer_inv r0 hs cs" for hs cs
  proof -
    have d: "distinct (hs @ cs)" using replacer_invD(1) [OF inv] by (simp add: lists_of_def)
    have i: "remove1 f (remove1 f hs) = remove1 f hs" "remove1 f (remove1 f cs) = remove1 f cs"
      using d by (simp_all add: remove1_idem)
    have g: "goes_to_history r f" using u(1) by (simp add: goes_to_history_def)
    show ?thesis
      using RecordAccess_inv [OF Remove_frame_inv [OF inv assms(1)] ra] g i by simp
  qed
  then show ?thesis
    using ra facts by blast
qed

theorem RecordAccess_after_Remove_witness:
  "node_store tracked_example 0 = Some (Node 0) \<and> replacer_inv tracked_example [0] [] \<and>
   (case Remove_frame tracked_example 0 of
      Inl e \<Rightarrow> False
    | Inr r \<Rightarrow>
        node_store r 0 = None \<and>
        (\<exists>r'. RecordAccess r 0 = Inr r' \<and>
           node_store r' 0 = Some (Node 0) \<and>
           history (nodes r' (Node 0)) = [2] \<and>
           \<not> is_evictable (nodes r' (Node 0)) \<and>
           frontptr (nodes r' HistoryEnd) = Some (Node 0) \<and>
           backptr (nodes r' (Node 0)) = Some HistoryEnd \<and>
           replacer_inv r' [0] []))"
proof -
  have t: "node_store tracked_example 0 = Some (Node 0)"
    "replacer_size tracked_example = 2" "replacer_k tracked_example = 2"
    "current_timestamp tracked_example = 1" "is_evictable (nodes tracked_example (Node 0))"
    by (simp_all add: tracked_example_def rep_defs Let_def upt_rec)
  obtain r where r: "Remove_frame tracked_example 0 = Inr r"
    using t by (simp add: Remove_frame_def Let_def)
  have n: "node_store r 0 = None"
    using Remove_frame_untracks(1) [OF r] .
  have "\<exists>r'. RecordAccess r 0 = Inr r' \<and>
           node_store r' 0 = Some (Node 0) \<and>
           history (nodes r' (Node 0)) = [current_timestamp tracked_example + 1] \<and>
           \<not> is_evictable (nodes r' (Node 0)) \<and>
           frontptr (nodes r' HistoryEnd) = Some (Node 0) \<and>
           backptr (nodes r' (Node 0)) = Some HistoryEnd \<and>
           (\<forall>hs cs. replacer_inv tracked_example hs cs \<longrightarrow>
              replacer_inv r' (0 # remove1 0 hs) (remove1 0 cs))"
    by (rule RecordAccess_after_Remove [OF r]) (simp_all add: t)
  then obtain r' where "RecordAccess r 0 = Inr r'"
    "node_store r' 0 = Some (Node 0)"
    "history (nodes r' (Node 0)) = [current_timestamp tracked_example + 1]"
    "\<not> is_evictable (nodes r' (Node 0))"
    "frontptr (nodes r' HistoryEnd) = Some (Node 0)"
    "backptr (nodes r' (Node 0)) = Some HistoryEnd"
    "replacer_inv tracked_example [0] [] \<longrightarrow> replacer_inv r' (0 # remove1 0 [0]) (remove1 0 [])"
    by blast
  then show ?thesis
    using t r n tracked_example_inv by (auto simp: numeral_2_eq_2)
qed

subsection \<open>The frame that \<open>Evict\<close> returns: the claim\<close>

text \<open>
  Claim C4, as the code has it. In a state whose links form the two lists \<open>hs\<close> and \<open>cs\<close>,
  with \<open>Size() > 0\<close> and an evictable frame on one of the lists, \<open>Evict\<close> returns the
  evictable frame of the history list that is nearest the list's old end (the end at
  \<open>middle_separator\<close>); only if no frame of the history list is evictable does it return
  the evictable frame of the cache list nearest that list's old end (the end at
  \<open>buffer_start\<close>). The frame returned is then off its list, not evictable, its history is
  empty, and \<open>curr_size_\<close> is one less. The position on a list is that of the last
  \<open>RecordAccess\<close>, which moves the frame to the recent end of its list
  (\<open>RecordAccess_inv\<close>): neither the earliest timestamp nor the K-th most recent one orders
  the lists.
\<close>

theorem Evict_returns_oldest_position:
  assumes "lists_of r hs cs" and "curr_size r \<noteq> 0"
    and "\<exists>f \<in> set (hs @ cs). evictable_frame r f"
  shows "\<exists>f r'. Evict r = Some (Inr (Some f, r')) \<and> victim r hs cs = Some f \<and>
           evictable_frame r f \<and>
           (f \<in> set hs \<or> (f \<in> set cs \<and> \<not> (\<exists>g \<in> set hs. evictable_frame r g))) \<and>
           lists_of r' (remove1 f hs) (remove1 f cs) \<and>
           \<not> evictable_frame r' f \<and> history (nodes r' (Node f)) = [] \<and>
           curr_size r' = curr_size r - 1"
proof -
  obtain f where v: "victim r hs cs = Some f"
    using victim_exists [OF assms(3)] by blast
  have c: "evictable_frame r f \<and>
           (f \<in> set hs \<or> (f \<in> set cs \<and> \<not> (\<exists>g \<in> set hs. evictable_frame r g)))"
    by (rule victim_cases [OF v])
  then have "f \<in> set (hs @ cs)" by auto
  then have id: "node_frame_id (nodes r (Node f)) = f"
    using assms(1) by (auto simp: lists_of_def list_all_iff)
  have "Evict r = Some (Inr (Evict_take r (Node f)))"
    using Evict_victim_take [OF assms(1,2)] v by simp
  moreover have "fst (Evict_take r (Node f)) = Some f"
    by (simp add: Evict_take_def Let_def id)
  moreover have "\<not> evictable_frame (snd (Evict_take r (Node f))) f"
    "history (nodes (snd (Evict_take r (Node f))) (Node f)) = []"
    "curr_size (snd (Evict_take r (Node f))) = curr_size r - 1"
    by (simp_all add: Evict_take_def Let_def evictable_frame_def CleanHistory_def)
  moreover have "lists_of (snd (Evict_take r (Node f))) (remove1 f hs) (remove1 f cs)"
    using lists_of_DisLink [OF assms(1) \<open>f \<in> set (hs @ cs)\<close>]
    by (rule lists_of_cong) (simp_all add: Evict_take_def Let_def CleanHistory_def)
  ultimately show ?thesis
    using v c by (intro exI [of _ f] exI [of _ "snd (Evict_take r (Node f))"]) (simp add: prod_eq_iff)
qed

theorem Evict_returns_oldest_position_witness:
  "lists_of history_example [1, 2] [] \<and> curr_size history_example \<noteq> 0 \<and>
   evictable_frame history_example 1 \<and>
   (\<exists>r'. Evict history_example = Some (Inr (Some 2, r')) \<and> lists_of r' [1] [] \<and>
      \<not> evictable_frame r' 2 \<and> history (nodes r' (Node 2)) = [] \<and>
      curr_size r' = curr_size history_example - 1)"
proof -
  have l: "lists_of history_example [1, 2] []"
    by (simp add: lists_of_def chain_def history_example_def rep_defs Let_def upt_rec)
  have s: "curr_size history_example \<noteq> 0"
    by (simp add: history_example_def rep_defs Let_def upt_rec)
  have e: "evictable_frame history_example 1" "evictable_frame history_example 2"
    by (simp_all add: evictable_frame_def history_example_def rep_defs Let_def upt_rec)
  have v: "victim history_example [1, 2] [] = Some 2"
    using e by (simp add: victim_def)
  have "\<exists>f \<in> set ([1, 2] @ []). evictable_frame history_example f"
    using e by simp
  from Evict_returns_oldest_position [OF l s this] v l s e show ?thesis
    by auto
qed

theorem Evict_order_counterexample:
  "(case Evict history_example of Some (Inr (Some f, r')) \<Rightarrow> f = 2 | _ \<Rightarrow> False) \<and>
   replacer_k history_example = 3 \<and> curr_size history_example = 2 \<and>
   node_store history_example 1 = Some (Node 1) \<and>
   node_store history_example 2 = Some (Node 2) \<and>
   evictable_frame history_example 1 \<and> evictable_frame history_example 2 \<and>
   history (nodes history_example (Node 1)) = [1, 3] \<and>
   history (nodes history_example (Node 2)) = [2] \<and>
   (case Evict cache_example of Some (Inr (Some f, r')) \<Rightarrow> f = 2 | _ \<Rightarrow> False) \<and>
   replacer_k cache_example = 2 \<and>
   evictable_frame cache_example 1 \<and> evictable_frame cache_example 2 \<and>
   history (nodes cache_example (Node 1)) = [2, 5] \<and>
   history (nodes cache_example (Node 2)) = [3, 4]"
  by (simp add: history_example_def cache_example_def evictable_frame_def rep_defs Let_def
      upt_rec Evict_scan.simps)

section \<open>Properties of the buffer pool manager\<close>

lemmas bpm_defs =
  BufferPoolManager_new_def NewPage_def NewPage_install_def NewPage_evicted_def FetchPage_def
  FetchPage_install_def FetchPage_evicted_def
  UnpinPage_def DeletePage_def FlushPage_def page_at_def set_page_def emplace_def write_page_def
  read_page_def new_Page_def ResetMemory_def

lemmas pool_examples =
  pool_example_def pool_after_NewPage_def pool_after_second_NewPage_def pool_after_DeletePage_def

subsection \<open>Pages that are not resident, pages that are\<close>

text \<open>
  Claim C2, as the code has it. For every page id that is not resident, \<open>DeletePage\<close>
  returns \<open>false\<close> (the claim says \<open>true\<close>) and leaves the state of the pool unchanged.
\<close>

theorem DeletePage_not_resident:
  assumes "page_table s pid = None"
  shows "DeletePage s pid = Inr (False, s)"
  using assms by (simp add: DeletePage_def)

theorem DeletePage_not_resident_witness:
  "page_table pool_example 5 = None \<and> DeletePage pool_example 5 = Inr (False, pool_example)"
proof -
  have n: "page_table pool_example 5 = None"
    by (simp add: pool_example_def BufferPoolManager_new_def)
  show ?thesis
    using n DeletePage_not_resident [OF n] by simp
qed

theorem DeletePage_not_resident_counterexample:
  "page_table pool_example 5 = None \<and>
   (case DeletePage pool_example 5 of Inr (result, s') \<Rightarrow> result = False | Inl e \<Rightarrow> False)"
  by (simp add: pool_example_def BufferPoolManager_new_def DeletePage_def)

text \<open>
  Claim C3, as the code has it. For every page id that is resident, \<open>FetchPage\<close> returns
  the frame that the page table gives for it, and leaves the pages, with their pin
  counts, and the page table as they are: no operation of the pool increments a pin
  count.
\<close>

theorem FetchPage_resident:
  assumes "page_table s pid = Some f"
  shows "\<exists>s'. FetchPage write_ok read_ok s pid = Some (Inr (Some f, s')) \<and>
           pages s' = pages s \<and> page_table s' = page_table s"
  using assms by (simp add: FetchPage_def)

theorem FetchPage_resident_witness:
  "page_table pool_after_NewPage 0 = Some 0 \<and>
   (\<exists>s'. FetchPage True True pool_after_NewPage 0 = Some (Inr (Some 0, s')) \<and>
      pages s' = pages pool_after_NewPage \<and> page_table s' = page_table pool_after_NewPage)"
proof -
  have r: "page_table pool_after_NewPage 0 = Some 0"
    by (simp add: pool_examples bpm_defs rep_defs Let_def upt_rec)
  show ?thesis
    using r FetchPage_resident [OF r, of True True] by simp
qed

theorem FetchPage_resident_counterexample:
  "page_table pool_after_NewPage 0 = Some 0 \<and>
   (case FetchPage True True pool_after_NewPage 0 of
      Some (Inr (Some f, s')) \<Rightarrow>
        f = 0 \<and> pin_count (page_at pool_after_NewPage 0) = 0 \<and> pin_count (page_at s' 0) = 0 \<and>
        current_timestamp (replacer s') = current_timestamp (replacer pool_after_NewPage)
    | _ \<Rightarrow> False)"
  by (simp add: pool_examples bpm_defs rep_defs Let_def upt_rec)

subsection \<open>A new page is not pinned\<close>

lemma RecordAccess_tracks:
  assumes "RecordAccess r f = Inr r1"
  shows "\<exists>p. node_store r1 f = Some p" "size_t_of f < replacer_size r"
    "replacer_size r1 = replacer_size r"
  using assms
  by (auto simp: RecordAccess_def Let_def split: if_splits option.splits prod.splits)

lemma SetEvictable_sets:
  assumes "node_store r f = Some p"
  shows "node_store (SetEvictable r f b) f = Some p"
    "is_evictable (nodes (SetEvictable r f b) p) = b"
  using assms by (auto simp: SetEvictable_def)

lemma SetEvictable_replacer_size [simp]:
  "replacer_size (SetEvictable r f b) = replacer_size r"
  by (simp add: SetEvictable_def split: option.splits)

lemma Evict_replacer_size:
  assumes "Evict r = Some (Inr (x, r1))"
  shows "replacer_size r1 = replacer_size r"
  using assms
  by (auto simp: Evict_def Evict_take_def Let_def split: if_splits option.splits sum.splits)

lemma size_t_of_index: "size_t_of f < n \<Longrightarrow> nat f < n"
  by (auto simp: size_t_of_def split: if_splits)


lemma pins_update:
  assumes "\<forall>p \<in> set ps. pin_count p = 0" and "pin_count q = pin_count (ps ! i)"
  shows "\<forall>p \<in> set (ps[i := q]). pin_count p = 0"
proof (cases "i < length ps")
  case True
  then have "pin_count q = 0" using assms by simp
  then show ?thesis
    using assms(1) set_update_subset_insert [of ps i q] by auto
next
  case False
  then have "ps[i := q] = ps" by (simp add: list_update_beyond)
  then show ?thesis using assms(1) by simp
qed

lemma NewPage_evicted_reaches_install:
  assumes "NewPage_evicted write_ok f0 s = Inr (Some (pid, f), s1)"
  shows "\<exists>s0. NewPage_install f0 s0 = Inr (Some (pid, f), s1) \<and> install_state s s0"
proof (cases "is_dirty (page_at s f0)")
  case False
  then have "NewPage_install f0 s = Inr (Some (pid, f), s1)"
    using assms by (simp add: NewPage_evicted_def)
  then show ?thesis
    by (intro exI [of _ s]) (simp add: install_state_def)
next
  case True
  let ?old = "page_id (page_at s f0)"
  let ?s2 = "write_page ?old f0 s"
  let ?s3 = "set_page f0 (ResetMemory (page_at ?s2 f0)) ?s2"
  let ?s0 = "?s3\<lparr>page_table := (page_table ?s3)(?old := None)\<rparr>"
  have unf: "NewPage_evicted write_ok f0 s =
      (if \<not> write_ok then
         Inl (ExecutionException ''BufferPoolManager::NewPage: write page error!'')
       else if page_table ?s3 ?old = None then Inl EraseEnd
       else NewPage_install f0 ?s0)"
    unfolding NewPage_evicted_def Let_def using True by (simp only: if_True)
  have w: "write_ok"
  proof (rule ccontr)
    assume "\<not> write_ok"
    then have "NewPage_evicted write_ok f0 s =
        Inl (ExecutionException ''BufferPoolManager::NewPage: write page error!'')"
      unfolding unf by (simp only: if_True if_False simp_thms)
    then show False using assms by simp
  qed
  have e: "page_table ?s3 ?old \<noteq> None"
  proof
    assume "page_table ?s3 ?old = None"
    then have "NewPage_evicted write_ok f0 s = Inl EraseEnd"
      unfolding unf using w by (simp only: if_True if_False simp_thms)
    then show False using assms by simp
  qed
  have inst: "NewPage_install f0 ?s0 = Inr (Some (pid, f), s1)"
    using assms unfolding unf using w e by (simp only: if_True if_False simp_thms)
  have pg: "pages ?s0 = (pages s)[nat f0 := ResetMemory (pages s ! nat f0)]"
    by (simp add: set_page_def write_page_def page_at_def)
  have pins: "\<forall>p \<in> set (pages ?s0). pin_count p = 0" if "\<forall>p \<in> set (pages s). pin_count p = 0"
    unfolding pg using that by (rule pins_update) (simp add: ResetMemory_def)
  have npi: "next_page_id ?s0 = next_page_id s"
    by (simp add: set_page_def write_page_def)
  have pt: "\<forall>p g. page_table ?s0 p = Some g \<longrightarrow> page_table s p = Some g"
    by (simp add: set_page_def write_page_def)
  have len: "length (pages ?s0) = length (pages s)"
    unfolding pg by simp
  have rs: "replacer_size (replacer ?s0) = replacer_size (replacer s)"
    by (simp add: set_page_def write_page_def)
  have ps: "pool_size ?s0 = pool_size s"
    by (simp add: set_page_def write_page_def)
  have "install_state s ?s0"
    unfolding install_state_def using pins npi ps pt len rs by blast
  then show ?thesis
    using inst by blast
qed

lemma NewPage_reaches_install:
  assumes "NewPage write_ok s = Some (Inr (Some (pid, f), s1))"
  shows "\<exists>f0 s0. NewPage_install f0 s0 = Inr (Some (pid, f), s1) \<and> install_state s s0"
proof (cases "free_list s \<noteq> []")
  case True
  then have "NewPage_install (last (free_list s)) (s\<lparr>free_list := butlast (free_list s)\<rparr>)
               = Inr (Some (pid, f), s1)"
    using assms by (simp add: NewPage_def Let_def)
  then show ?thesis
    by (intro exI [of _ "last (free_list s)"] exI [of _ "s\<lparr>free_list := butlast (free_list s)\<rparr>"])
       (simp add: install_state_def)
next
  case False
  have sz: "Size (replacer s) > 0"
    using assms False by (simp add: NewPage_def split: if_splits)
  have np: "NewPage write_ok s =
     (case Evict (replacer s) of
           None \<Rightarrow> None
         | Some (Inl e) \<Rightarrow> Some (Inl e)
         | Some (Inr (None, r1)) \<Rightarrow> Some (Inl UninitializedRead)
         | Some (Inr (Some frame_id, r1)) \<Rightarrow>
             Some (NewPage_evicted write_ok frame_id (s\<lparr>replacer := r1\<rparr>)))"
    using False sz by (simp add: NewPage_def)
  obtain f0 r1 where ev: "Evict (replacer s) = Some (Inr (Some f0, r1))"
  proof (cases "Evict (replacer s)")
    case None
    then show ?thesis using assms np by simp
  next
    case (Some x)
    show ?thesis
    proof (cases x)
      case (Inl e)
      then show ?thesis using assms np Some by simp
    next
      case (Inr y)
      obtain fo r1 where y: "y = (fo, r1)" by (cases y)
      show ?thesis
      proof (cases fo)
        case None
        then show ?thesis using assms np Some Inr y by simp
      next
        case (Some f0)
        then show ?thesis using that \<open>Evict (replacer s) = Some x\<close> Inr y by simp
      qed
    qed
  qed
  note rs = Evict_replacer_size [OF ev]
  have "NewPage_evicted write_ok f0 (s\<lparr>replacer := r1\<rparr>) = Inr (Some (pid, f), s1)"
    using assms np ev by simp
  then obtain s0 where "NewPage_install f0 s0 = Inr (Some (pid, f), s1)"
    and "install_state (s\<lparr>replacer := r1\<rparr>) s0"
    using NewPage_evicted_reaches_install by blast
  then show ?thesis
    using rs by (intro exI [of _ f0] exI [of _ s0]) (simp add: install_state_def)
qed








text \<open>
  A pool in which the page id that \<open>NewPage\<close> returns was resident before: in a new pool of
  two frames, \<open>FetchPage(0)\<close> brings page 0 into frame 1, and \<open>UnpinPage(0, false)\<close> makes
  frame 1 evictable; \<open>NewPage\<close> then returns page 0 again, in frame 0, and the page table
  keeps frame 1 for it. \<open>DeletePage(0)\<close> right after this \<open>NewPage\<close> returns \<open>true\<close>: it
  frees frame 1, and the new page stays in frame 0, non-evictable and without an entry
  in the page table.
\<close>

lemma NewPage_resident_page_id:
  "pool_inv pool2_example \<and> table_inv pool2_example \<and>
   FetchPage True True pool2_example 0 = Some (Inr (Some 1, pool2_after_FetchPage)) \<and>
   UnpinPage pool2_after_FetchPage 0 False = (True, snd (UnpinPage pool2_after_FetchPage 0 False)) \<and>
   NewPage True (snd (UnpinPage pool2_after_FetchPage 0 False))
     = Some (Inr (Some (0, 0), pool2_after_NewPage)) \<and>
   page_table pool2_after_NewPage 0 = Some 1 \<and>
   (case DeletePage pool2_after_NewPage 0 of
      Inr (result, s') \<Rightarrow>
        result \<and> free_list s' = [1] \<and> page_table s' 0 = None \<and>
        page_id (page_at s' 0) = 0 \<and> Size (replacer s') = 0
    | Inl x \<Rightarrow> False)"
  by (simp add: pool2_example_def pool2_after_FetchPage_def pool2_after_NewPage_def
      pool_inv_def table_inv_def bpm_defs rep_defs Let_def upt_rec)

subsection \<open>A clean victim stays in the page table\<close>

text \<open>
  Claim C1 says that \<open>NewPage\<close> removes the old page id of a victim that comes from the
  replacer, dirty or clean, so that afterwards every frame is free or mapped by exactly
  one entry of the page table. The code erases the old page id only inside the branch for
  a dirty page. In a pool of one frame: \<open>NewPage\<close> returns page 0 in frame 0;
  \<open>UnpinPage(0, false)\<close> leaves the page clean and the frame evictable; \<open>NewPage\<close> then
  evicts frame 0 and returns page 1 in it, and the page table maps both page 0 and page 1
  to frame 0.
\<close>

theorem NewPage_clean_victim_stays_mapped:
  "NewPage True pool_example = Some (Inr (Some (0, 0), pool_after_NewPage)) \<and>
   fst (UnpinPage pool_after_NewPage 0 False) \<and>
   free_list (snd (UnpinPage pool_after_NewPage 0 False)) = [] \<and>
   \<not> is_dirty (page_at (snd (UnpinPage pool_after_NewPage 0 False)) 0) \<and>
   NewPage True (snd (UnpinPage pool_after_NewPage 0 False))
     = Some (Inr (Some (1, 0), pool_after_second_NewPage)) \<and>
   page_table pool_after_second_NewPage 0 = Some 0 \<and>
   page_table pool_after_second_NewPage 1 = Some 0 \<and>
   free_list pool_after_second_NewPage = []"
  by (simp add: pool_examples bpm_defs rep_defs Let_def upt_rec Evict_scan.simps)

subsection \<open>Unpinning a page that is not pinned\<close>

text \<open>
  Where the replacer tracks the frame of a resident page whose pin count is 0,
  \<open>UnpinPage\<close> returns \<open>true\<close>, leaves the pin count at 0 and has the frame evictable.
\<close>

lemma UnpinPage_tracked_frame:
  assumes "page_table s pid = Some f" and "pin_count (page_at s f) = 0"
    and "node_store (replacer s) f = Some p"
  shows "\<exists>s'. UnpinPage s pid False = (True, s') \<and> pin_count (page_at s' f) = 0 \<and>
           node_store (replacer s') f = Some p \<and> is_evictable (nodes (replacer s') p)"
  using assms SetEvictable_sets [OF assms(3), of True]
  by (simp add: UnpinPage_def Let_def page_at_def)

text \<open>
  Claim C9 says that for every resident page whose pin count is 0, \<open>UnpinPage\<close> returns
  \<open>true\<close>, leaves the pin count at 0 and marks the frame evictable in the replacer. The
  page table entry that \<open>NewPage\<close> leaves behind for a clean victim (claim C1) breaks the
  last part. After the steps of C1, \<open>UnpinPage(1, false)\<close> and \<open>DeletePage(1)\<close> free
  frame 0 and remove it from the replacer, while page 0 is still resident in frame 0:
  \<open>UnpinPage(0, false)\<close> returns \<open>true\<close> with the pin count at 0, and \<open>SetEvictable\<close> does
  nothing, for the replacer does not track frame 0: no frame is evictable.
\<close>

theorem UnpinPage_stale_entry:
  "fst (UnpinPage pool_after_second_NewPage 1 False) \<and>
   DeletePage (snd (UnpinPage pool_after_second_NewPage 1 False)) 1
     = Inr (True, pool_after_DeletePage) \<and>
   page_table pool_after_DeletePage 0 = Some 0 \<and>
   free_list pool_after_DeletePage = [0] \<and>
   pin_count (page_at pool_after_DeletePage 0) = 0 \<and>
   fst (UnpinPage pool_after_DeletePage 0 False) \<and>
   pin_count (page_at (snd (UnpinPage pool_after_DeletePage 0 False)) 0) = 0 \<and>
   node_store (replacer (snd (UnpinPage pool_after_DeletePage 0 False))) 0 = None \<and>
   Size (replacer (snd (UnpinPage pool_after_DeletePage 0 False))) = 0"
  by (simp add: pool_examples bpm_defs rep_defs Let_def upt_rec Evict_scan.simps)


subsection \<open>No page of the pool is ever pinned\<close>

text \<open>
  The constructor establishes \<open>pool_inv\<close> and \<open>table_inv\<close>, and every operation of the pool
  that returns keeps them, as does \<open>DeletePage\<close> when it throws: the array of pages and the
  replacer keep the size of the pool, no pin count leaves 0, since no statement
  increments one, and the page table names frames of the pool only. Every pool that these
  steps reach from a new one is therefore one of the pools that claim C8 speaks of.
\<close>

lemma pool_inv_set_page:
  assumes "pool_inv s" and "pin_count q = pin_count (page_at s f)"
  shows "pool_inv (set_page f q s)"
proof -
  have a: "\<forall>p \<in> set (pages s). pin_count p = 0"
    and l: "length (pages s) = pool_size s"
    and r: "replacer_size (replacer s) = pool_size s"
    using assms(1) unfolding pool_inv_def by blast+
  have q: "pin_count q = pin_count (pages s ! nat f)"
    using assms(2) unfolding page_at_def .
  have b: "\<forall>p \<in> set ((pages s)[nat f := q]). pin_count p = 0"
    using a q by (rule pins_update)
  have s: "set_page f q s = s\<lparr>pages := (pages s)[nat f := q]\<rparr>"
    unfolding set_page_def ..
  show ?thesis
    unfolding pool_inv_def s using b l r by simp
qed

lemma pool_inv_fields:
  assumes "pool_inv s" and "pages s' = pages s" and "pool_size s' = pool_size s"
    and "replacer_size (replacer s') = replacer_size (replacer s)"
  shows "pool_inv s'"
  using assms by (simp add: pool_inv_def)

lemma pool_inv_new: "pool_inv (BufferPoolManager_new n kk d)"
  by (simp add: pool_inv_def BufferPoolManager_new_def LRUKReplacer_new_def new_Page_def)

lemma Remove_frame_replacer_size:
  "Remove_frame r f = Inr r' \<Longrightarrow> replacer_size r' = replacer_size r"
  by (auto simp: Remove_frame_def Let_def split: option.splits if_splits)

lemma NewPage_install_inv:
  assumes "NewPage_install f s0 = Inr (x, s1)" and "pool_inv s0"
  shows "pool_inv s1"
proof -
  obtain r1 where r1: "RecordAccess (replacer s0) f = Inr r1"
    using assms(1) by (auto simp: NewPage_install_def split: sum.splits)
  let ?sa = "s0\<lparr>replacer := SetEvictable r1 f False, next_page_id := next_page_id s0 + 1\<rparr>"
  have s1: "s1 = emplace (next_page_id s0) f
                  (set_page f ((page_at ?sa f)\<lparr>page_id := next_page_id s0\<rparr>) ?sa)"
    using assms(1) r1 by (simp add: NewPage_install_def Let_def)
  have a: "pool_inv ?sa"
    using assms(2) by (rule pool_inv_fields) (simp_all add: RecordAccess_tracks(3) [OF r1])
  have b: "pool_inv (set_page f ((page_at ?sa f)\<lparr>page_id := next_page_id s0\<rparr>) ?sa)"
    using a by (rule pool_inv_set_page) simp
  show ?thesis
    unfolding s1 using b by (rule pool_inv_fields) (simp_all add: emplace_def)
qed

lemma install_state_inv: "install_state s s0 \<Longrightarrow> pool_inv s \<Longrightarrow> pool_inv s0"
  by (simp add: install_state_def pool_inv_def)

lemma NewPage_install_Some: "NewPage_install f s0 = Inr (x, s1) \<Longrightarrow> x \<noteq> None"
  by (auto simp: NewPage_install_def Let_def split: sum.splits)

lemma NewPage_evicted_unfold:
  "NewPage_evicted write_ok f s =
     (if is_dirty (page_at s f) then
        (if \<not> write_ok then
           Inl (ExecutionException ''BufferPoolManager::NewPage: write page error!'')
         else if page_table
                   (set_page f (ResetMemory (page_at (write_page (page_id (page_at s f)) f s) f))
                      (write_page (page_id (page_at s f)) f s))
                   (page_id (page_at s f)) = None
         then Inl EraseEnd
         else NewPage_install f
                ((set_page f (ResetMemory (page_at (write_page (page_id (page_at s f)) f s) f))
                    (write_page (page_id (page_at s f)) f s))
                 \<lparr>page_table :=
                    (page_table
                       (set_page f (ResetMemory (page_at (write_page (page_id (page_at s f)) f s) f))
                          (write_page (page_id (page_at s f)) f s)))
                    (page_id (page_at s f) := None)\<rparr>))
      else NewPage_install f s)"
  by (simp only: NewPage_evicted_def Let_def)

lemma NewPage_evicted_Some:
  assumes "NewPage_evicted w f s0 = Inr (x, s1)"
  shows "x \<noteq> None"
proof -
  have "\<exists>s. NewPage_install f s = Inr (x, s1)"
  proof (cases "is_dirty (page_at s0 f)")
    case False
    then have "NewPage_install f s0 = Inr (x, s1)"
      using assms unfolding NewPage_evicted_unfold by (simp only: if_False)
    then show ?thesis by blast
  next
    case True
    note d = this
    show ?thesis
    proof (cases w)
      case False
      then have "NewPage_evicted w f s0 =
          Inl (ExecutionException ''BufferPoolManager::NewPage: write page error!'')"
        unfolding NewPage_evicted_unfold using d by (simp only: if_True simp_thms)
      then show ?thesis using assms by simp
    next
      case True
      note w = this
      let ?s3 = "set_page f (ResetMemory (page_at (write_page (page_id (page_at s0 f)) f s0) f))
                   (write_page (page_id (page_at s0 f)) f s0)"
      show ?thesis
      proof (cases "page_table ?s3 (page_id (page_at s0 f)) = None")
        case True
        then have "NewPage_evicted w f s0 = Inl EraseEnd"
          unfolding NewPage_evicted_unfold using d w by (simp only: if_True if_False simp_thms)
        then show ?thesis using assms by simp
      next
        case False
        then have "NewPage_install f
            (?s3\<lparr>page_table := (page_table ?s3)(page_id (page_at s0 f) := None)\<rparr>) = Inr (x, s1)"
          using assms unfolding NewPage_evicted_unfold using d w
          by (simp only: if_True if_False simp_thms)
        then show ?thesis by blast
      qed
    qed
  qed
  then show ?thesis using NewPage_install_Some by blast
qed

lemma NewPage_inv:
  assumes "NewPage write_ok s = Some (Inr (x, s1))" and "pool_inv s"
  shows "pool_inv s1"
proof (cases x)
  case None
  have "s1 = s"
  proof (cases "free_list s \<noteq> []")
    case True
    then show ?thesis
      using assms(1) None by (auto simp: NewPage_def Let_def dest: NewPage_install_Some)
  next
    case False
    show ?thesis
    proof (cases "Size (replacer s) > 0")
      case sz: True
      then show ?thesis
        using assms(1) None False
        by (auto simp: NewPage_def split: option.splits sum.splits dest: NewPage_evicted_Some)
    next
      case sz: False
      then show ?thesis using assms(1) False by (simp add: NewPage_def)
    qed
  qed
  then show ?thesis using assms(2) by simp
next
  case (Some a)
  obtain pid f where a: "a = (pid, f)" by (cases a)
  obtain f0 s0 where "NewPage_install f0 s0 = Inr (Some (pid, f), s1)" and "install_state s s0"
    using NewPage_reaches_install [of write_ok s pid f s1] assms(1) Some a by auto
  then show ?thesis
    using NewPage_install_inv install_state_inv assms(2) by blast
qed

lemma UnpinPage_inv:
  assumes "pool_inv s"
  shows "pool_inv (snd (UnpinPage s pid dirty))"
proof (cases "page_table s pid")
  case None
  then show ?thesis using assms by (simp add: UnpinPage_def)
next
  case (Some f)
  define s1 where "s1 = (if dirty \<and> \<not> is_dirty (page_at s f)
             then set_page f ((page_at s f)\<lparr>is_dirty := True\<rparr>) s else s)"
  define s2 where "s2 = (if pin_count (page_at s1 f) > 0
             then set_page f ((page_at s1 f)\<lparr>pin_count := pin_count (page_at s1 f) - 1\<rparr>) s1
             else s1)"
  define s3 where "s3 = (if pin_count (page_at s2 f) = 0
             then s2\<lparr>replacer := SetEvictable (replacer s2) f True\<rparr> else s2)"
  have u: "UnpinPage s pid dirty = (True, s3)"
    unfolding UnpinPage_def Let_def s3_def s2_def s1_def using Some by (simp only: option.case)
  have 1: "pool_inv s1"
  proof (cases "dirty \<and> \<not> is_dirty (page_at s f)")
    case True
    then have "s1 = set_page f ((page_at s f)\<lparr>is_dirty := True\<rparr>) s"
      unfolding s1_def by simp
    then show ?thesis using pool_inv_set_page [OF assms, of "(page_at s f)\<lparr>is_dirty := True\<rparr>" f]
      by simp
  next
    case False
    then have "s1 = s" unfolding s1_def by (simp only: if_False)
    then show ?thesis using assms by simp
  qed
  have 2: "pool_inv s2"
  proof (cases "pin_count (page_at s1 f) > 0")
    case True
    show ?thesis
    proof (cases "nat f < length (pages s1)")
      case True
      then have "pin_count (page_at s1 f) = 0"
        using 1 by (simp add: pool_inv_def page_at_def)
      then show ?thesis using \<open>pin_count (page_at s1 f) > 0\<close> by simp
    next
      case False
      then have "set_page f ((page_at s1 f)\<lparr>pin_count := pin_count (page_at s1 f) - 1\<rparr>) s1 = s1"
        by (simp add: set_page_def list_update_beyond)
      then have "s2 = s1" unfolding s2_def by (simp only: if_True if_False if_cancel)
      then show ?thesis using 1 by simp
    qed
  next
    case False
    then have "s2 = s1" unfolding s2_def by (simp only: if_False)
    then show ?thesis using 1 by simp
  qed
  have 3: "pool_inv s3"
  proof (cases "pin_count (page_at s2 f) = 0")
    case True
    then have "s3 = s2\<lparr>replacer := SetEvictable (replacer s2) f True\<rparr>"
      unfolding s3_def by simp
    then show ?thesis
      using pool_inv_fields [OF 2, of "s2\<lparr>replacer := SetEvictable (replacer s2) f True\<rparr>"]
      by simp
  next
    case False
    then have "s3 = s2" unfolding s3_def by (simp only: if_False)
    then show ?thesis using 2 by simp
  qed
  show ?thesis using u 3 by simp
qed

lemma DeletePage_inv:
  assumes "DeletePage s pid = Inr (b, s1)" and "pool_inv s"
  shows "pool_inv s1"
proof (cases "page_table s pid")
  case None
  then show ?thesis using assms by (simp add: DeletePage_def)
next
  case (Some f)
  show ?thesis
  proof (cases "pin_count (page_at s f) > 0")
    case True
    then show ?thesis using assms Some by (simp add: DeletePage_def)
  next
    case False
    let ?s1 = "s\<lparr>page_table := (page_table s)(pid := None)\<rparr>"
    obtain r1 where r1: "Remove_frame (replacer s) f = Inr r1"
      using assms(1) Some False by (auto simp: DeletePage_def Let_def split: sum.splits)
    let ?s2 = "?s1\<lparr>replacer := r1, free_list := free_list ?s1 @ [f]\<rparr>"
    have s1: "s1 = set_page f (ResetMemory (page_at ?s2 f)) ?s2"
      using assms(1) Some False r1 by (simp add: DeletePage_def Let_def)
    have "pool_inv ?s2"
      using assms(2) by (rule pool_inv_fields) (simp_all add: Remove_frame_replacer_size [OF r1])
    then show ?thesis
      unfolding s1 by (rule pool_inv_set_page) (simp add: ResetMemory_def)
  qed
qed

lemma FlushPage_inv:
  assumes "FlushPage write_ok s pid = Inr (b, s1)" and "pool_inv s"
  shows "pool_inv s1"
proof (cases "page_table s pid")
  case None
  then show ?thesis using assms by (simp add: FlushPage_def)
next
  case (Some f)
  let ?s1 = "write_page pid f s"
  have s1: "s1 = set_page f ((page_at ?s1 f)\<lparr>is_dirty := False\<rparr>) ?s1"
    using assms(1) Some by (cases write_ok) (simp_all add: FlushPage_def Let_def)
  have "pool_inv ?s1"
    using assms(2) by (rule pool_inv_fields) (simp_all add: write_page_def)
  then show ?thesis
    unfolding s1 by (rule pool_inv_set_page) simp
qed


lemma pool_inv_write_page: "pool_inv s \<Longrightarrow> pool_inv (write_page pid f s)"
  by (erule pool_inv_fields) (simp_all add: write_page_def)

lemma pool_inv_read_page: "pool_inv s \<Longrightarrow> pool_inv (read_page pid f s)"
  unfolding read_page_def by (erule pool_inv_set_page) simp

lemma pool_inv_ResetMemory: "pool_inv s \<Longrightarrow> pool_inv (set_page f (ResetMemory (page_at s f)) s)"
  by (erule pool_inv_set_page) (simp add: ResetMemory_def)

lemma FetchPage_install_inv:
  assumes "FetchPage_install pid f s0 = Inr (x, s1)" and "pool_inv s0"
  shows "pool_inv s1"
proof -
  obtain r1 where r1: "RecordAccess (replacer s0) f = Inr r1"
    using assms(1) by (auto simp: FetchPage_install_def split: sum.splits)
  let ?sa = "s0\<lparr>replacer := SetEvictable r1 f False\<rparr>"
  have s1: "s1 = emplace pid f (set_page f ((page_at ?sa f)\<lparr>page_id := pid\<rparr>) ?sa)"
    using assms(1) r1 by (simp add: FetchPage_install_def Let_def)
  have a: "pool_inv ?sa"
    using assms(2) by (rule pool_inv_fields) (simp_all add: RecordAccess_tracks(3) [OF r1])
  have b: "pool_inv (set_page f ((page_at ?sa f)\<lparr>page_id := pid\<rparr>) ?sa)"
    using a by (rule pool_inv_set_page) simp
  show ?thesis
    unfolding s1 using b by (rule pool_inv_fields) (simp_all add: emplace_def)
qed

lemma FetchPage_evicted_inv:
  assumes "FetchPage_evicted write_ok read_ok pid f s = Inr (x, s1)" and "pool_inv s"
  shows "pool_inv s1"
proof -
  define s2 where "s2 = s\<lparr>page_table := (page_table s)(page_id (page_at s f) := None)\<rparr>"
  define s3 where "s3 = (if is_dirty (page_at s2 f)
                         then write_page (page_id (page_at s2 f)) f s2 else s2)"
  define s4 where "s4 = (if is_dirty (page_at s2 f)
                         then set_page f (ResetMemory (page_at s3 f)) s3 else s3)"
  define s5 where "s5 = read_page pid f s4"
  have u: "FetchPage_evicted write_ok read_ok pid f s =
     (if page_table s (page_id (page_at s f)) = None then Inl EraseEnd
      else if is_dirty (page_at s2 f) \<and> \<not> write_ok then
        Inl (ExecutionException ''BufferPoolManager::FetchPage: write page error!'')
      else if \<not> read_ok then
        Inl (ExecutionException ''BufferPoolManager::FetchPage: read page error!'')
      else FetchPage_install pid f s5)"
    unfolding FetchPage_evicted_def Let_def s5_def s4_def s3_def s2_def ..
  have i: "FetchPage_install pid f s5 = Inr (x, s1)"
  proof (cases "page_table s (page_id (page_at s f)) = None")
    case True
    then show ?thesis using assms(1) unfolding u by simp
  next
    case a: False
    show ?thesis
    proof (cases "is_dirty (page_at s2 f) \<and> \<not> write_ok")
      case True
      then show ?thesis using assms(1) a unfolding u by simp
    next
      case b: False
      show ?thesis
      proof (cases read_ok)
        case False
        then show ?thesis using assms(1) a b unfolding u by simp
      next
        case True
        then show ?thesis using assms(1) a b unfolding u by simp
      qed
    qed
  qed
  have 2: "pool_inv s2"
    using assms(2) unfolding s2_def by (rule pool_inv_fields) simp_all
  have 3: "pool_inv s3"
    unfolding s3_def using 2 by (simp add: pool_inv_write_page)
  have 4: "pool_inv s4"
    unfolding s4_def using 3 by (simp add: pool_inv_ResetMemory)
  have 5: "pool_inv s5"
    unfolding s5_def using 4 by (rule pool_inv_read_page)
  show ?thesis using i 5 by (rule FetchPage_install_inv)
qed

lemma FetchPage_inv:
  assumes "FetchPage write_ok read_ok s pid = Some (Inr (x, s1))" and "pool_inv s"
  shows "pool_inv s1"
proof (cases "page_table s pid")
  case (Some f)
  then have "s1 = s" using assms(1) by (simp add: FetchPage_def)
  then show ?thesis using assms(2) by simp
next
  case None
  note n = this
  show ?thesis
  proof (cases "free_list s \<noteq> []")
    case True
    let ?f = "last (free_list s)"
    let ?s2 = "read_page pid ?f (s\<lparr>free_list := butlast (free_list s)\<rparr>)"
    have i: "FetchPage_install pid ?f ?s2 = Inr (x, s1)"
      using assms(1) n True by (cases read_ok) (simp_all add: FetchPage_def Let_def)
    have "pool_inv (s\<lparr>free_list := butlast (free_list s)\<rparr>)"
      using assms(2) by (rule pool_inv_fields) simp_all
    then have "pool_inv ?s2" by (rule pool_inv_read_page)
    with i show ?thesis by (rule FetchPage_install_inv)
  next
    case False
    note fl = this
    show ?thesis
    proof (cases "Size (replacer s) > 0")
      case False
      then have "s1 = s" using assms(1) n fl by (simp add: FetchPage_def)
      then show ?thesis using assms(2) by simp
    next
      case True
      have e: "FetchPage write_ok read_ok s pid =
         (case Evict (replacer s) of
               None \<Rightarrow> None
             | Some (Inl e) \<Rightarrow> Some (Inl e)
             | Some (Inr (None, r1)) \<Rightarrow> Some (Inl UninitializedRead)
             | Some (Inr (Some frame_id, r1)) \<Rightarrow>
                 Some (FetchPage_evicted write_ok read_ok pid frame_id (s\<lparr>replacer := r1\<rparr>)))"
        using n fl True by (simp add: FetchPage_def)
      obtain f r1 where ev: "Evict (replacer s) = Some (Inr (Some f, r1))"
        and fe: "FetchPage_evicted write_ok read_ok pid f (s\<lparr>replacer := r1\<rparr>) = Inr (x, s1)"
        using assms(1) unfolding e by (auto split: option.splits sum.splits)
      have "pool_inv (s\<lparr>replacer := r1\<rparr>)"
        using assms(2) by (rule pool_inv_fields) (simp_all add: Evict_replacer_size [OF ev])
      with fe show ?thesis by (rule FetchPage_evicted_inv)
    qed
  qed
qed

lemma DeletePage_throws_inv:
  assumes "DeletePage s pid = Inl (e, s1)" and "pool_inv s"
  shows "pool_inv s1"
proof -
  have "s1 = s\<lparr>page_table := (page_table s)(pid := None)\<rparr>"
    using assms(1)
    by (auto simp: DeletePage_def Let_def split: option.splits if_splits sum.splits)
  then show ?thesis
    using pool_inv_fields [OF assms(2), of "s\<lparr>page_table := (page_table s)(pid := None)\<rparr>"]
    by simp
qed

subsection \<open>The page table names frames of the pool\<close>

lemma table_inv_fields:
  assumes "table_inv s" and "pool_size s' = pool_size s"
    and "\<forall>p g. page_table s' p = Some g \<longrightarrow> page_table s p = Some g"
  shows "table_inv s'"
  using assms unfolding table_inv_def by metis

lemma table_inv_new: "table_inv (BufferPoolManager_new n kk d)"
  by (simp add: table_inv_def BufferPoolManager_new_def)

lemma table_inv_emplace:
  assumes "table_inv s" and "nat f < pool_size s"
  shows "table_inv (emplace pid f s)"
  using assms by (simp add: table_inv_def emplace_def)

lemma install_state_table_inv: "install_state s s0 \<Longrightarrow> table_inv s \<Longrightarrow> table_inv s0"
  unfolding install_state_def table_inv_def by metis

lemma NewPage_install_table_inv:
  assumes "NewPage_install f s0 = Inr (x, s1)" and "table_inv s0"
    and "replacer_size (replacer s0) = pool_size s0"
  shows "table_inv s1"
proof -
  obtain r1 where r1: "RecordAccess (replacer s0) f = Inr r1"
    using assms(1) by (auto simp: NewPage_install_def split: sum.splits)
  let ?sa = "s0\<lparr>replacer := SetEvictable r1 f False, next_page_id := next_page_id s0 + 1\<rparr>"
  let ?sb = "set_page f ((page_at ?sa f)\<lparr>page_id := next_page_id s0\<rparr>) ?sa"
  have s1: "s1 = emplace (next_page_id s0) f ?sb"
    using assms(1) r1 by (simp add: NewPage_install_def Let_def)
  have idx: "nat f < pool_size s0"
    using size_t_of_index [OF RecordAccess_tracks(2) [OF r1]] assms(3) by simp
  have b: "table_inv ?sb"
    using assms(2) by (rule table_inv_fields) (simp_all add: set_page_def)
  have "pool_size ?sb = pool_size s0" by (simp add: set_page_def)
  then show ?thesis
    unfolding s1 using b idx by (intro table_inv_emplace) simp_all
qed

lemma NewPage_table_inv:
  assumes "NewPage write_ok s = Some (Inr (x, s1))" and "pool_inv s" and "table_inv s"
  shows "table_inv s1"
proof (cases x)
  case None
  have "s1 = s"
  proof (cases "free_list s \<noteq> []")
    case True
    then show ?thesis
      using assms(1) None by (auto simp: NewPage_def Let_def dest: NewPage_install_Some)
  next
    case False
    show ?thesis
    proof (cases "Size (replacer s) > 0")
      case sz: True
      then show ?thesis
        using assms(1) None False
        by (auto simp: NewPage_def split: option.splits sum.splits dest: NewPage_evicted_Some)
    next
      case sz: False
      then show ?thesis using assms(1) False by (simp add: NewPage_def)
    qed
  qed
  then show ?thesis using assms(3) by simp
next
  case (Some a)
  obtain pid f where a: "a = (pid, f)" by (cases a)
  obtain f0 s0 where i: "NewPage_install f0 s0 = Inr (Some (pid, f), s1)"
    and st: "install_state s s0"
    using NewPage_reaches_install [of write_ok s pid f s1] assms(1) Some a by auto
  have "replacer_size (replacer s0) = pool_size s0"
    using st assms(2) by (simp add: install_state_def pool_inv_def)
  with i install_state_table_inv [OF st assms(3)] show ?thesis
    by (rule NewPage_install_table_inv)
qed

lemma FetchPage_install_table_inv:
  assumes "FetchPage_install pid f s0 = Inr (x, s1)" and "table_inv s0"
    and "replacer_size (replacer s0) = pool_size s0"
  shows "table_inv s1"
proof -
  obtain r1 where r1: "RecordAccess (replacer s0) f = Inr r1"
    using assms(1) by (auto simp: FetchPage_install_def split: sum.splits)
  let ?sa = "s0\<lparr>replacer := SetEvictable r1 f False\<rparr>"
  let ?sb = "set_page f ((page_at ?sa f)\<lparr>page_id := pid\<rparr>) ?sa"
  have s1: "s1 = emplace pid f ?sb"
    using assms(1) r1 by (simp add: FetchPage_install_def Let_def)
  have idx: "nat f < pool_size s0"
    using size_t_of_index [OF RecordAccess_tracks(2) [OF r1]] assms(3) by simp
  have b: "table_inv ?sb"
    using assms(2) by (rule table_inv_fields) (simp_all add: set_page_def)
  have "pool_size ?sb = pool_size s0" by (simp add: set_page_def)
  then show ?thesis
    unfolding s1 using b idx by (intro table_inv_emplace) simp_all
qed

lemma table_inv_write_page: "table_inv s \<Longrightarrow> table_inv (write_page pid f s)"
  by (erule table_inv_fields) (simp_all add: write_page_def)

lemma table_inv_set_page: "table_inv s \<Longrightarrow> table_inv (set_page f q s)"
  by (erule table_inv_fields) (simp_all add: set_page_def)

lemma table_inv_read_page: "table_inv s \<Longrightarrow> table_inv (read_page pid f s)"
  unfolding read_page_def by (rule table_inv_set_page)

lemma FetchPage_evicted_table_inv:
  assumes "FetchPage_evicted write_ok read_ok pid f s = Inr (x, s1)"
    and "pool_inv s" and "table_inv s"
  shows "table_inv s1"
proof -
  define s2 where "s2 = s\<lparr>page_table := (page_table s)(page_id (page_at s f) := None)\<rparr>"
  define s3 where "s3 = (if is_dirty (page_at s2 f)
                         then write_page (page_id (page_at s2 f)) f s2 else s2)"
  define s4 where "s4 = (if is_dirty (page_at s2 f)
                         then set_page f (ResetMemory (page_at s3 f)) s3 else s3)"
  define s5 where "s5 = read_page pid f s4"
  have u: "FetchPage_evicted write_ok read_ok pid f s =
     (if page_table s (page_id (page_at s f)) = None then Inl EraseEnd
      else if is_dirty (page_at s2 f) \<and> \<not> write_ok then
        Inl (ExecutionException ''BufferPoolManager::FetchPage: write page error!'')
      else if \<not> read_ok then
        Inl (ExecutionException ''BufferPoolManager::FetchPage: read page error!'')
      else FetchPage_install pid f s5)"
    unfolding FetchPage_evicted_def Let_def s5_def s4_def s3_def s2_def ..
  have i: "FetchPage_install pid f s5 = Inr (x, s1)"
  proof (cases "page_table s (page_id (page_at s f)) = None")
    case True
    then show ?thesis using assms(1) unfolding u by simp
  next
    case a: False
    show ?thesis
    proof (cases "is_dirty (page_at s2 f) \<and> \<not> write_ok")
      case True
      then show ?thesis using assms(1) a unfolding u by simp
    next
      case b: False
      show ?thesis
      proof (cases read_ok)
        case False
        then show ?thesis using assms(1) a b unfolding u by simp
      next
        case True
        then show ?thesis using assms(1) a b unfolding u by simp
      qed
    qed
  qed
  have p2: "pool_inv s2"
    using assms(2) unfolding s2_def by (rule pool_inv_fields) simp_all
  have p3: "pool_inv s3"
    unfolding s3_def using p2 by (simp add: pool_inv_write_page)
  have p4: "pool_inv s4"
    unfolding s4_def using p3 by (simp add: pool_inv_ResetMemory)
  have p5: "pool_inv s5"
    unfolding s5_def using p4 by (rule pool_inv_read_page)
  have 2: "table_inv s2"
    using assms(3) unfolding s2_def by (rule table_inv_fields) simp_all
  have 3: "table_inv s3"
    unfolding s3_def using 2 by (simp add: table_inv_write_page)
  have 4: "table_inv s4"
    unfolding s4_def using 3 by (simp add: table_inv_set_page)
  have 5: "table_inv s5"
    unfolding s5_def using 4 by (rule table_inv_read_page)
  have "replacer_size (replacer s5) = pool_size s5"
    using p5 by (simp add: pool_inv_def)
  with i 5 show ?thesis by (rule FetchPage_install_table_inv)
qed

lemma FetchPage_table_inv:
  assumes "FetchPage write_ok read_ok s pid = Some (Inr (x, s1))"
    and "pool_inv s" and "table_inv s"
  shows "table_inv s1"
proof (cases "page_table s pid")
  case (Some f)
  then have "s1 = s" using assms(1) by (simp add: FetchPage_def)
  then show ?thesis using assms(3) by simp
next
  case None
  note n = this
  show ?thesis
  proof (cases "free_list s \<noteq> []")
    case True
    let ?f = "last (free_list s)"
    let ?sa = "s\<lparr>free_list := butlast (free_list s)\<rparr>"
    let ?s2 = "read_page pid ?f ?sa"
    have i: "FetchPage_install pid ?f ?s2 = Inr (x, s1)"
      using assms(1) n True by (cases read_ok) (simp_all add: FetchPage_def Let_def)
    have "pool_inv ?sa"
      using assms(2) by (rule pool_inv_fields) simp_all
    then have "pool_inv ?s2" by (rule pool_inv_read_page)
    then have rs: "replacer_size (replacer ?s2) = pool_size ?s2"
      by (simp add: pool_inv_def)
    have "table_inv ?sa"
      using assms(3) by (rule table_inv_fields) simp_all
    then have "table_inv ?s2" by (rule table_inv_read_page)
    with i show ?thesis using rs by (rule FetchPage_install_table_inv)
  next
    case False
    note fl = this
    show ?thesis
    proof (cases "Size (replacer s) > 0")
      case False
      then have "s1 = s" using assms(1) n fl by (simp add: FetchPage_def)
      then show ?thesis using assms(3) by simp
    next
      case True
      have e: "FetchPage write_ok read_ok s pid =
         (case Evict (replacer s) of
               None \<Rightarrow> None
             | Some (Inl e) \<Rightarrow> Some (Inl e)
             | Some (Inr (None, r1)) \<Rightarrow> Some (Inl UninitializedRead)
             | Some (Inr (Some frame_id, r1)) \<Rightarrow>
                 Some (FetchPage_evicted write_ok read_ok pid frame_id (s\<lparr>replacer := r1\<rparr>)))"
        using n fl True by (simp add: FetchPage_def)
      obtain f r1 where ev: "Evict (replacer s) = Some (Inr (Some f, r1))"
        and fe: "FetchPage_evicted write_ok read_ok pid f (s\<lparr>replacer := r1\<rparr>) = Inr (x, s1)"
        using assms(1) unfolding e by (auto split: option.splits sum.splits)
      have pi: "pool_inv (s\<lparr>replacer := r1\<rparr>)"
        using assms(2) by (rule pool_inv_fields) (simp_all add: Evict_replacer_size [OF ev])
      have ti: "table_inv (s\<lparr>replacer := r1\<rparr>)"
        using assms(3) by (rule table_inv_fields) simp_all
      show ?thesis using fe pi ti by (rule FetchPage_evicted_table_inv)
    qed
  qed
qed

lemma UnpinPage_table_inv:
  assumes "table_inv s"
  shows "table_inv (snd (UnpinPage s pid dirty))"
  using assms
  by (rule table_inv_fields)
     (simp_all add: UnpinPage_def Let_def set_page_def split: option.splits)

lemma FlushPage_table_inv:
  assumes "FlushPage write_ok s pid = Inr (b, s1)" and "table_inv s"
  shows "table_inv s1"
proof (cases "page_table s pid")
  case None
  then show ?thesis using assms by (simp add: FlushPage_def)
next
  case (Some f)
  let ?s1 = "write_page pid f s"
  have s1: "s1 = set_page f ((page_at ?s1 f)\<lparr>is_dirty := False\<rparr>) ?s1"
    using assms(1) Some by (cases write_ok) (simp_all add: FlushPage_def Let_def)
  show ?thesis
    unfolding s1 using assms(2) by (intro table_inv_set_page table_inv_write_page)
qed

lemma DeletePage_table_inv:
  assumes "DeletePage s pid = Inr (b, s1)" and "table_inv s"
  shows "table_inv s1"
proof (cases "page_table s pid")
  case None
  then show ?thesis using assms by (simp add: DeletePage_def)
next
  case (Some f)
  show ?thesis
  proof (cases "pin_count (page_at s f) > 0")
    case True
    then show ?thesis using assms Some by (simp add: DeletePage_def)
  next
    case False
    let ?s1 = "s\<lparr>page_table := (page_table s)(pid := None)\<rparr>"
    obtain r1 where r1: "Remove_frame (replacer s) f = Inr r1"
      using assms(1) Some False by (auto simp: DeletePage_def Let_def split: sum.splits)
    let ?s2 = "?s1\<lparr>replacer := r1, free_list := free_list ?s1 @ [f]\<rparr>"
    have s1: "s1 = set_page f (ResetMemory (page_at ?s2 f)) ?s2"
      using assms(1) Some False r1 by (simp add: DeletePage_def Let_def)
    have "table_inv ?s2"
      using assms(2) by (rule table_inv_fields) simp_all
    then show ?thesis
      unfolding s1 by (rule table_inv_set_page)
  qed
qed

lemma DeletePage_throws_table_inv:
  assumes "DeletePage s pid = Inl (e, s1)" and "table_inv s"
  shows "table_inv s1"
proof -
  have "s1 = s\<lparr>page_table := (page_table s)(pid := None)\<rparr>"
    using assms(1)
    by (auto simp: DeletePage_def Let_def split: option.splits if_splits sum.splits)
  then show ?thesis
    using table_inv_fields [OF assms(2), of "s\<lparr>page_table := (page_table s)(pid := None)\<rparr>"]
    by simp
qed

text \<open>The pool that \<open>NewPage\<close> was called on in the example of two frames is such a pool.\<close>

lemma pool2_reached_inv:
  "pool_inv (snd (UnpinPage pool2_after_FetchPage 0 False)) \<and>
   table_inv (snd (UnpinPage pool2_after_FetchPage 0 False))"
proof -
  have f: "FetchPage True True pool2_example 0 = Some (Inr (Some 1, pool2_after_FetchPage))"
    by (simp add: pool2_example_def pool2_after_FetchPage_def bpm_defs rep_defs Let_def upt_rec)
  have a: "pool_inv pool2_example" "table_inv pool2_example"
    unfolding pool2_example_def by (rule pool_inv_new, rule table_inv_new)
  have b: "pool_inv pool2_after_FetchPage"
    using f a(1) by (rule FetchPage_inv)
  have c: "table_inv pool2_after_FetchPage"
    using f a by (rule FetchPage_table_inv)
  show ?thesis
    using UnpinPage_inv [OF b] UnpinPage_table_inv [OF c] by simp
qed

end
